theory Spec2Isabelle
  imports Main "HOL-Library.AList" "HOL-Library.Product_Lexorder"
begin

section \<open>Coordinates and the rotation transform (presentation.py, rotate_point)\<close>

text \<open>
  A coordinate is a triple of Python integers (unbounded), used both for brick-local
  offsets and for absolute grid positions.
\<close>

type_synonym coord = "int \<times> int \<times> int"

text \<open>The three local helpers of \<^verbatim>\<open>rotate_point\<close>, each one 90 degree step.\<close>

definition rot_x :: "coord \<Rightarrow> coord" where
  "rot_x a = (case a of (a0, a1, a2) \<Rightarrow> (a0, - a2, a1))"

definition rot_y :: "coord \<Rightarrow> coord" where
  "rot_y a = (case a of (a0, a1, a2) \<Rightarrow> (a2, a1, - a0))"

definition rot_z :: "coord \<Rightarrow> coord" where
  "rot_z a = (case a of (a0, a1, a2) \<Rightarrow> (- a1, a0, a2))"

text \<open>
  The loop \<^verbatim>\<open>for _ in range(k): a = f(a)\<close>: the body runs \<open>k\<close> times on the
  running value.
\<close>

fun for_range :: "nat \<Rightarrow> ('a \<Rightarrow> 'a) \<Rightarrow> 'a \<Rightarrow> 'a" where
  "for_range 0 f a = a"
| "for_range (Suc k) f a = for_range k f (f a)"

text \<open>
  \<^verbatim>\<open>rotate_point(p, rx, ry, rz)\<close>. Python's \<^verbatim>\<open>%\<close> with a positive modulus
  yields a result in \<open>0..3\<close> for every integer, as \<open>mod\<close> on \<open>int\<close> does.
\<close>

definition rotate_point :: "coord \<Rightarrow> int \<Rightarrow> int \<Rightarrow> int \<Rightarrow> coord" where
  "rotate_point p rx ry rz =
     (let a = p;
          a = for_range (nat (rx mod 4)) rot_x a;
          a = for_range (nat (ry mod 4)) rot_y a;
          a = for_range (nat (rz mod 4)) rot_z a
      in a)"

text \<open>
  The rotation as the specification words it: the X-step applied \<open>rx mod 4\<close> times, then
  the Y-step \<open>ry mod 4\<close> times, then the Z-step \<open>rz mod 4\<close> times. This definition follows
  the specification, not the source; it is compared with \<open>rotate_point\<close> below.
\<close>

definition spec_x_step :: "coord \<Rightarrow> coord" where
  "spec_x_step = (\<lambda>(x, y, z). (x, - z, y))"

definition spec_y_step :: "coord \<Rightarrow> coord" where
  "spec_y_step = (\<lambda>(x, y, z). (z, y, - x))"

definition spec_z_step :: "coord \<Rightarrow> coord" where
  "spec_z_step = (\<lambda>(x, y, z). (- y, x, z))"

definition spec_rotate :: "coord \<Rightarrow> int \<Rightarrow> int \<Rightarrow> int \<Rightarrow> coord" where
  "spec_rotate p rx ry rz =
     (spec_z_step ^^ nat (rz mod 4))
       ((spec_y_step ^^ nat (ry mod 4))
         ((spec_x_step ^^ nat (rx mod 4)) p))"

section \<open>Errors\<close>

text \<open>
  The exceptions the engine raises or lets through: \<^verbatim>\<open>ValueError\<close> and
  \<^verbatim>\<open>KeyError\<close> are raised by the engine itself, \<^verbatim>\<open>IndexError\<close> and
  \<^verbatim>\<open>OverflowError\<close> come from numpy's item assignment and indexing,
  \<^verbatim>\<open>AttributeError\<close> from looking up a name an object does not have.
\<close>

datatype error = ValueError | KeyError | IndexError | OverflowError | AttributeError

section \<open>Bricks (presentation.py, class Brick)\<close>

record Brick =
  cubes :: "coord list"
  name :: string

text \<open>
  \<^verbatim>\<open>Brick.__init__(cubes, name="")\<close>: fails unless there are exactly four cubes;
  an empty name is replaced by \<^verbatim>\<open>"brick"\<close> (\<^verbatim>\<open>name or "brick"\<close>).
\<close>

definition Brick_init :: "coord list \<Rightarrow> string \<Rightarrow> error + Brick" where
  "Brick_init cs nm =
     (if length cs \<noteq> 4 then Inl ValueError
      else Inr \<lparr>cubes = cs, name = (if nm = [] then ''brick'' else nm)\<rparr>)"

text \<open>
  Every Brick object was built by the constructor, so it has four cubes and a non-empty
  name. The class defines neither \<^verbatim>\<open>__eq__\<close> nor \<^verbatim>\<open>__hash__\<close>.
\<close>

definition wf_brick :: "Brick \<Rightarrow> bool" where
  "wf_brick b = (length (cubes b) = 4 \<and> name b \<noteq> [])"

definition rotated :: "Brick \<Rightarrow> int \<Rightarrow> int \<Rightarrow> int \<Rightarrow> error + Brick" where
  "rotated b rx ry rz = Brick_init (map (\<lambda>c. rotate_point c rx ry rz) (cubes b)) (name b)"

text \<open>
  \<^verbatim>\<open>normalized\<close>: \<^verbatim>\<open>xs, ys, zs = zip(*self.cubes)\<close> raises ValueError when there is
  no cube; otherwise every cube is shifted by the minimum of each axis.
\<close>

definition normalized :: "Brick \<Rightarrow> error + Brick" where
  "normalized b =
     (case cubes b of
        [] \<Rightarrow> Inl ValueError
      | (x0, y0, z0) # cs \<Rightarrow>
          (let minx = fold min (map (\<lambda>(x, y, z). x) cs) x0;
               miny = fold min (map (\<lambda>(x, y, z). y) cs) y0;
               minz = fold min (map (\<lambda>(x, y, z). z) cs) z0
           in Brick_init (map (\<lambda>(x, y, z). (x - minx, y - miny, z - minz)) (cubes b)) (name b)))"

text \<open>The absolute cells a brick covers when its origin is mapped to \<open>pos\<close>.\<close>

fun shift :: "coord \<Rightarrow> coord \<Rightarrow> coord" where
  "shift (px, py, pz) (cx, cy, cz) = (px + cx, py + cy, pz + cz)"

definition cells_of :: "Brick \<Rightarrow> coord \<Rightarrow> coord list" where
  "cells_of b pos = map (shift pos) (cubes b)"

section \<open>The numpy occupancy array\<close>

text \<open>
  \<^verbatim>\<open>np.zeros((size, size, size), dtype=int)\<close>: a cube of 64-bit integers with edge
  \<open>shape\<close>. Only the cells with all three indices in \<open>0..<shape\<close> exist; the model keeps
  every other cell of the function at 0. Allocation limits are not modelled.
\<close>

record ndarray =
  shape :: int
  cells :: "coord \<Rightarrow> int"

definition in_grid :: "int \<Rightarrow> coord \<Rightarrow> bool" where
  "in_grid n c = (case c of (x, y, z) \<Rightarrow> 0 \<le> x \<and> x < n \<and> 0 \<le> y \<and> y < n \<and> 0 \<le> z \<and> z < n)"

definition int64_ok :: "int \<Rightarrow> bool" where
  "int64_ok v = (- (2 ^ 63) \<le> v \<and> v < 2 ^ 63)"

definition np_zeros :: "int \<Rightarrow> error + ndarray" where
  "np_zeros n = (if n < 0 then Inl ValueError else Inr \<lparr>shape = n, cells = (\<lambda>c. 0)\<rparr>)"

text \<open>An integer index on an axis of length \<open>n\<close>: negative indices count from the end.\<close>

definition np_index :: "int \<Rightarrow> int \<Rightarrow> error + int" where
  "np_index n i = (if - n \<le> i \<and> i < n then Inr (if i < 0 then i + n else i) else Inl IndexError)"

definition np_coord :: "int \<Rightarrow> coord \<Rightarrow> error + coord" where
  "np_coord n c =
     (case c of (x, y, z) \<Rightarrow>
        (case np_index n x of Inl e \<Rightarrow> Inl e
         | Inr i \<Rightarrow> (case np_index n y of Inl e \<Rightarrow> Inl e
            | Inr j \<Rightarrow> (case np_index n z of Inl e \<Rightarrow> Inl e
               | Inr k \<Rightarrow> Inr (i, j, k)))))"

definition np_get :: "ndarray \<Rightarrow> coord \<Rightarrow> error + int" where
  "np_get a c = (case np_coord (shape a) c of Inl e \<Rightarrow> Inl e | Inr d \<Rightarrow> Inr (cells a d))"

text \<open>
  \<^verbatim>\<open>a[x, y, z] = v\<close>: the index is resolved first (IndexError), then the Python integer
  is converted to the 64-bit item (OverflowError).
\<close>

definition np_set :: "ndarray \<Rightarrow> coord \<Rightarrow> int \<Rightarrow> error + ndarray" where
  "np_set a c v =
     (case np_coord (shape a) c of
        Inl e \<Rightarrow> Inl e
      | Inr d \<Rightarrow> if int64_ok v then Inr (a\<lparr>cells := (cells a)(d := v)\<rparr>) else Inl OverflowError)"

definition np_fill :: "ndarray \<Rightarrow> int \<Rightarrow> ndarray" where
  "np_fill a v = a\<lparr>cells := (\<lambda>c. if in_grid (shape a) c then v else cells a c)\<rparr>"

section \<open>The grid and its registry (presentation.py, class CubeGrid)\<close>

text \<open>
  The registry \<^verbatim>\<open>placed\<close> is a Python dict, which keeps insertion order: an association
  list with distinct keys, where assigning to a present key keeps its place and assigning
  to a new key appends.

  The caches \<^verbatim>\<open>valid_rotations[name]\<close> are Python sets of Brick objects. Brick has no
  value equality, so such a set compares members by object identity and holds every object
  that was added; it is modelled by the list of the objects added. The caches
  \<^verbatim>\<open>valid_placements[name]\<close> are sets of coordinate tuples, modelled by lists without
  repetition. The order in which Python iterates a set is not specified; the lists stand in
  insertion order.
\<close>

record CubeGrid =
  size_g :: int
  grid :: ndarray
  next_id :: int
  placed :: "(int \<times> (int \<times> Brick \<times> coord)) list"
  bricks :: "(string \<times> Brick) list"
  valid_placements :: "(string \<times> coord list) list"
  valid_rotations :: "(string \<times> Brick list) list"

definition dict_set :: "'k \<Rightarrow> 'v \<Rightarrow> ('k \<times> 'v) list \<Rightarrow> ('k \<times> 'v) list" where
  "dict_set k v d = AList.update k v d"

definition dict_pop :: "'k \<Rightarrow> ('k \<times> 'v) list \<Rightarrow> ('k \<times> 'v) list" where
  "dict_pop k d = AList.delete k d"

text \<open>\<^verbatim>\<open>d.get(k, set())\<close> on a dict of sets.\<close>

definition dict_get_set :: "('k \<times> 'v list) list \<Rightarrow> 'k \<Rightarrow> 'v list" where
  "dict_get_set d k = (case map_of d k of None \<Rightarrow> [] | Some v \<Rightarrow> v)"

text \<open>\<^verbatim>\<open>range(n)\<close> and the triple loop over all origins, x outermost.\<close>

definition py_range :: "int \<Rightarrow> int list" where
  "py_range n = [0..n - 1]"

definition grid_origins :: "int \<Rightarrow> coord list" where
  "grid_origins n = [(x, y, z). x \<leftarrow> py_range n, y \<leftarrow> py_range n, z \<leftarrow> py_range n]"

text \<open>\<^verbatim>\<open>can_place\<close>: the loop over the cubes, leaving at the first failure.\<close>

fun can_place_loop :: "int \<Rightarrow> ndarray \<Rightarrow> coord \<Rightarrow> coord list \<Rightarrow> error + bool" where
  "can_place_loop n g (px, py, pz) [] = Inr True"
| "can_place_loop n g (px, py, pz) ((cx, cy, cz) # cs) =
     (let x = px + cx; y = py + cy; z = pz + cz in
      if \<not> (0 \<le> x \<and> x < n \<and> 0 \<le> y \<and> y < n \<and> 0 \<le> z \<and> z < n) then Inr False
      else (case np_get g (x, y, z) of
              Inl e \<Rightarrow> Inl e
            | Inr v \<Rightarrow> if v \<noteq> 0 then Inr False else can_place_loop n g (px, py, pz) cs))"

definition can_place :: "CubeGrid \<Rightarrow> Brick \<Rightarrow> coord \<Rightarrow> error + bool" where
  "can_place s brick pos = can_place_loop (size_g s) (grid s) pos (cubes brick)"

text \<open>
  The loops \<^verbatim>\<open>for cx, cy, cz in brick.cubes: self.grid[pos + c] = v\<close> of place, remove,
  move and load. An exception leaves the cells written so far in place.
\<close>

fun assign_cells :: "ndarray \<Rightarrow> coord \<Rightarrow> coord list \<Rightarrow> int \<Rightarrow> (error + unit) \<times> ndarray" where
  "assign_cells g (px, py, pz) [] v = (Inr (), g)"
| "assign_cells g (px, py, pz) ((cx, cy, cz) # cs) v =
     (case np_set g (px + cx, py + cy, pz + cz) v of
        Inl e \<Rightarrow> (Inl e, g)
      | Inr g' \<Rightarrow> assign_cells g' (px, py, pz) cs v)"

text \<open>
  Mutating methods return what the call returned or raised, together with the object's
  state after the call.
\<close>

definition place :: "CubeGrid \<Rightarrow> Brick \<Rightarrow> coord \<Rightarrow> (error + int) \<times> CubeGrid" where
  "place s brick pos =
     (case can_place s brick pos of
        Inl e \<Rightarrow> (Inl e, s)
      | Inr ok \<Rightarrow>
          if \<not> ok then (Inl ValueError, s)
          else (let pid = next_id s in
            case assign_cells (grid s) pos (cubes brick) pid of
              (Inl e, g) \<Rightarrow> (Inl e, s\<lparr>grid := g\<rparr>)
            | (Inr u, g) \<Rightarrow>
                (Inr pid, s\<lparr>grid := g,
                            placed := dict_set pid (pid, brick, pos) (placed s),
                            next_id := next_id s + 1\<rparr>)))"

definition remove :: "CubeGrid \<Rightarrow> int \<Rightarrow> (error + unit) \<times> CubeGrid" where
  "remove s placement_id =
     (case map_of (placed s) placement_id of
        None \<Rightarrow> (Inl KeyError, s)
      | Some (pid, brick, pos) \<Rightarrow>
          (let s1 = s\<lparr>placed := dict_pop placement_id (placed s)\<rparr> in
           case assign_cells (grid s1) pos (cubes brick) 0 of
             (r, g) \<Rightarrow> (r, s1\<lparr>grid := g\<rparr>)))"

definition clear :: "CubeGrid \<Rightarrow> CubeGrid" where
  "clear s = s\<lparr>grid := np_fill (grid s) 0, next_id := 1, placed := []\<rparr>"

fun can_move_loop :: "int \<Rightarrow> ndarray \<Rightarrow> int \<Rightarrow> coord \<Rightarrow> coord list \<Rightarrow> error + bool" where
  "can_move_loop n g placement_id (px, py, pz) [] = Inr True"
| "can_move_loop n g placement_id (px, py, pz) ((cx, cy, cz) # cs) =
     (let x = px + cx; y = py + cy; z = pz + cz in
      if \<not> (0 \<le> x \<and> x < n \<and> 0 \<le> y \<and> y < n \<and> 0 \<le> z \<and> z < n) then Inr False
      else (case np_get g (x, y, z) of
              Inl e \<Rightarrow> Inl e
            | Inr occ \<Rightarrow>
                if occ \<noteq> 0 \<and> occ \<noteq> placement_id then Inr False
                else can_move_loop n g placement_id (px, py, pz) cs))"

definition can_move :: "CubeGrid \<Rightarrow> int \<Rightarrow> coord \<Rightarrow> error + bool" where
  "can_move s placement_id new_pos =
     (case map_of (placed s) placement_id of
        None \<Rightarrow> Inr False
      | Some (pid, brick, pos) \<Rightarrow>
          can_move_loop (size_g s) (grid s) placement_id new_pos (cubes brick))"

definition move :: "CubeGrid \<Rightarrow> int \<Rightarrow> coord \<Rightarrow> (error + unit) \<times> CubeGrid" where
  "move s placement_id new_pos =
     (case map_of (placed s) placement_id of
        None \<Rightarrow> (Inl KeyError, s)
      | Some (pid, brick, old_pos) \<Rightarrow>
          (case can_move s placement_id new_pos of
             Inl e \<Rightarrow> (Inl e, s)
           | Inr ok \<Rightarrow>
               if \<not> ok then (Inl ValueError, s)
               else (case assign_cells (grid s) old_pos (cubes brick) 0 of
                  (Inl e, g) \<Rightarrow> (Inl e, s\<lparr>grid := g\<rparr>)
                | (Inr u, g) \<Rightarrow>
                    (case assign_cells g new_pos (cubes brick) pid of
                       (Inl e, g') \<Rightarrow> (Inl e, s\<lparr>grid := g'\<rparr>)
                     | (Inr u', g') \<Rightarrow>
                         (Inr (), s\<lparr>grid := g',
                                    placed := dict_set placement_id (pid, brick, new_pos)
                                                (placed s)\<rparr>)))))"

text \<open>\<^verbatim>\<open>num_left\<close>: the count of zero cells over the triple loop.\<close>

fun count_empty :: "ndarray \<Rightarrow> coord list \<Rightarrow> error + int" where
  "count_empty g [] = Inr 0"
| "count_empty g (c # cs) =
     (case np_get g c of
        Inl e \<Rightarrow> Inl e
      | Inr v \<Rightarrow> (case count_empty g cs of
                    Inl e \<Rightarrow> Inl e
                  | Inr k \<Rightarrow> Inr (if v = 0 then k + 1 else k)))"

definition num_left :: "CubeGrid \<Rightarrow> error + int" where
  "num_left s = count_empty (grid s) (grid_origins (size_g s))"

subsection \<open>Construction and the placement caches\<close>

text \<open>
  The five templates of \<^verbatim>\<open>self.bricks\<close> (and of \<^verbatim>\<open>sample_bricks()\<close>), each the
  object that \<^verbatim>\<open>Brick([...], name=...)\<close> builds.
\<close>

definition brick_T :: Brick where
  "brick_T = \<lparr>cubes = [(0, 0, 0), (1, 0, 0), (2, 0, 0), (1, 1, 0)], name = ''T''\<rparr>"

definition brick_I :: Brick where
  "brick_I = \<lparr>cubes = [(0, 0, 0), (1, 0, 0), (2, 0, 0), (3, 0, 0)], name = ''I''\<rparr>"

definition brick_L :: Brick where
  "brick_L = \<lparr>cubes = [(0, 0, 0), (1, 0, 0), (2, 0, 0), (2, 1, 0)], name = ''L''\<rparr>"

definition brick_O :: Brick where
  "brick_O = \<lparr>cubes = [(0, 0, 0), (1, 0, 0), (0, 1, 0), (1, 1, 0)], name = ''O''\<rparr>"

definition brick_S3D :: Brick where
  "brick_S3D = \<lparr>cubes = [(0, 0, 0), (1, 0, 0), (1, 1, 0), (1, 1, 1)], name = ''S3D''\<rparr>"

definition default_bricks :: "(string \<times> Brick) list" where
  "default_bricks =
     [(''T'', brick_T), (''I'', brick_I), (''L'', brick_L), (''O'', brick_O), (''S3D'', brick_S3D)]"

definition rotation_triples :: "(int \<times> int \<times> int) list" where
  "rotation_triples = [(rx, ry, rz). rx \<leftarrow> py_range 4, ry \<leftarrow> py_range 4, rz \<leftarrow> py_range 4]"

text \<open>
  The loop that fills \<^verbatim>\<open>all_rotations\<close>: every \<^verbatim>\<open>brick.rotated(rx, ry, rz).normalized()\<close>
  is a new object, so \<^verbatim>\<open>add\<close> never finds it present.
\<close>

fun collect_rotations :: "Brick \<Rightarrow> (int \<times> int \<times> int) list \<Rightarrow> error + Brick list" where
  "collect_rotations brick [] = Inr []"
| "collect_rotations brick ((rx, ry, rz) # rs) =
     (case rotated brick rx ry rz of
        Inl e \<Rightarrow> Inl e
      | Inr r \<Rightarrow> (case normalized r of
          Inl e \<Rightarrow> Inl e
        | Inr b \<Rightarrow> (case collect_rotations brick rs of
            Inl e \<Rightarrow> Inl e
          | Inr bs \<Rightarrow> Inr (b # bs))))"

text \<open>
  The inner loop of the cache construction and of \<^verbatim>\<open>can_not_place_somewhere\<close>:
  try the orientations in turn and leave at the first that fits.
\<close>

fun any_can_place :: "CubeGrid \<Rightarrow> Brick list \<Rightarrow> coord \<Rightarrow> error + bool" where
  "any_can_place s [] pos = Inr False"
| "any_can_place s (b # bs) pos =
     (case can_place s b pos of
        Inl e \<Rightarrow> Inl e
      | Inr ok \<Rightarrow> if ok then Inr True else any_can_place s bs pos)"

fun scan_origins :: "CubeGrid \<Rightarrow> Brick list \<Rightarrow> coord list \<Rightarrow> error + coord list" where
  "scan_origins s rots [] = Inr []"
| "scan_origins s rots (c # cs) =
     (case any_can_place s rots c of
        Inl e \<Rightarrow> Inl e
      | Inr ok \<Rightarrow> (case scan_origins s rots cs of
          Inl e \<Rightarrow> Inl e
        | Inr found \<Rightarrow> Inr (if ok then c # found else found)))"

text \<open>Adding tuples to a set of tuples: a tuple already present is not added again.\<close>

definition set_add_all :: "'a list \<Rightarrow> 'a list \<Rightarrow> 'a list" where
  "set_add_all old new = old @ filter (\<lambda>c. c \<notin> set old) new"

text \<open>
  The loop over \<^verbatim>\<open>self.bricks.values()\<close>. The lookup
  \<^verbatim>\<open>self.valid_placements[brick.name]\<close> is reached only for an origin that fits.
\<close>

fun init_caches :: "CubeGrid \<Rightarrow> Brick list \<Rightarrow> error + CubeGrid" where
  "init_caches s [] = Inr s"
| "init_caches s (brick # rest) =
     (case collect_rotations brick rotation_triples of
        Inl e \<Rightarrow> Inl e
      | Inr all_rotations \<Rightarrow>
          (let s1 = s\<lparr>valid_rotations :=
                       dict_set (name brick) all_rotations (valid_rotations s)\<rparr> in
           case scan_origins s1 all_rotations (grid_origins (size_g s1)) of
             Inl e \<Rightarrow> Inl e
           | Inr found \<Rightarrow>
               if found = [] then init_caches s1 rest
               else (case map_of (valid_placements s1) (name brick) of
                  None \<Rightarrow> Inl KeyError
                | Some old \<Rightarrow>
                    init_caches
                      (s1\<lparr>valid_placements :=
                            dict_set (name brick) (set_add_all old found)
                              (valid_placements s1)\<rparr>)
                      rest)))"

definition CubeGrid_init :: "int \<Rightarrow> error + CubeGrid" where
  "CubeGrid_init n =
     (case np_zeros n of
        Inl e \<Rightarrow> Inl e
      | Inr g \<Rightarrow>
          init_caches
            \<lparr>size_g = n, grid = g, next_id = 1, placed = [], bricks = default_bricks,
             valid_placements = [(''T'', []), (''I'', []), (''L'', []), (''O'', []), (''S3D'', [])],
             valid_rotations = [(''T'', []), (''I'', []), (''L'', []), (''O'', []), (''S3D'', [])]\<rparr>
            (map snd default_bricks))"

subsection \<open>Cache-backed queries\<close>

fun collect_empties :: "ndarray \<Rightarrow> coord list \<Rightarrow> error + coord list" where
  "collect_empties g [] = Inr []"
| "collect_empties g (c # cs) =
     (case np_get g c of
        Inl e \<Rightarrow> Inl e
      | Inr v \<Rightarrow> (case collect_empties g cs of
          Inl e \<Rightarrow> Inl e
        | Inr es \<Rightarrow> Inr (if v = 0 then c # es else es)))"

fun passing_rotations :: "CubeGrid \<Rightarrow> Brick list \<Rightarrow> coord \<Rightarrow> error + (Brick \<times> coord) list" where
  "passing_rotations s [] e = Inr []"
| "passing_rotations s (b # bs) e =
     (case can_place s b e of
        Inl err \<Rightarrow> Inl err
      | Inr ok \<Rightarrow> (case passing_rotations s bs e of
          Inl err \<Rightarrow> Inl err
        | Inr ps \<Rightarrow> Inr (if ok then (b, e) # ps else ps)))"

fun validate_loop :: "CubeGrid \<Rightarrow> Brick list \<Rightarrow> coord list \<Rightarrow> error + (Brick \<times> coord) list" where
  "validate_loop s rots [] = Inr []"
| "validate_loop s rots (e # es) =
     (case passing_rotations s rots e of
        Inl err \<Rightarrow> Inl err
      | Inr ps \<Rightarrow> (case validate_loop s rots es of
          Inl err \<Rightarrow> Inl err
        | Inr qs \<Rightarrow> Inr (ps @ qs)))"

definition validate_placements :: "CubeGrid \<Rightarrow> Brick \<Rightarrow> error + (Brick \<times> coord) list" where
  "validate_placements s brick =
     (case collect_empties (grid s) (dict_get_set (valid_placements s) (name brick)) of
        Inl e \<Rightarrow> Inl e
      | Inr empties \<Rightarrow>
          if empties = [] then Inr []
          else validate_loop s (dict_get_set (valid_rotations s) (name brick)) empties)"

fun cannot_loop :: "CubeGrid \<Rightarrow> Brick list \<Rightarrow> coord list \<Rightarrow> error + bool" where
  "cannot_loop s rots [] = Inr False"
| "cannot_loop s rots (e # es) =
     (case any_can_place s rots e of
        Inl err \<Rightarrow> Inl err
      | Inr is_ok \<Rightarrow> if \<not> is_ok then Inr True else cannot_loop s rots es)"

definition can_not_place_somewhere :: "CubeGrid \<Rightarrow> Brick \<Rightarrow> error + bool" where
  "can_not_place_somewhere s brick =
     (case collect_empties (grid s) (dict_get_set (valid_placements s) (name brick)) of
        Inl e \<Rightarrow> Inl e
      | Inr empties \<Rightarrow>
          if empties = [] then Inr False
          else cannot_loop s (dict_get_set (valid_rotations s) (name brick)) empties)"

subsection \<open>Persistence\<close>

text \<open>
  The JSON document that \<^verbatim>\<open>to_dict\<close> builds and \<^verbatim>\<open>load_from_file\<close> reads. The three
  top-level keys and an item's name are read with \<^verbatim>\<open>get\<close> and a default, so they may be
  absent; \<^verbatim>\<open>pid\<close>, \<^verbatim>\<open>cubes\<close> and \<^verbatim>\<open>pos\<close> are required, with integer triples as the
  persisted format has them. Writing the document to a file and parsing it back is the
  identity on such documents and is not modelled.
\<close>

record item =
  item_pid :: int
  item_name :: "string option"
  item_cubes :: "coord list"
  item_pos :: coord

record snapshot =
  snap_size :: "int option"
  snap_next_id :: "int option"
  snap_placed :: "item list option"

text \<open>The record that \<^verbatim>\<open>to_dict\<close> appends for one entry of \<^verbatim>\<open>self.placed.items()\<close>.\<close>

definition item_of :: "int \<times> (int \<times> Brick \<times> coord) \<Rightarrow> item" where
  "item_of e =
     (case e of (pid, (pid2, brick, pos)) \<Rightarrow>
        \<lparr>item_pid = pid, item_name = Some (name brick),
         item_cubes = cubes brick, item_pos = pos\<rparr>)"

definition to_dict :: "CubeGrid \<Rightarrow> snapshot" where
  "to_dict s =
     \<lparr>snap_size = Some (size_g s),
      snap_next_id = Some (next_id s),
      snap_placed = Some (map item_of (placed s))\<rparr>"

fun load_items :: "CubeGrid \<Rightarrow> int \<Rightarrow> item list \<Rightarrow> (error + int) \<times> CubeGrid" where
  "load_items s max_pid [] = (Inr max_pid, s)"
| "load_items s max_pid (it # its) =
     (let pid = item_pid it;
          nm = (case item_name it of None \<Rightarrow> [] | Some n \<Rightarrow> n) in
      case Brick_init (item_cubes it) nm of
        Inl e \<Rightarrow> (Inl e, s)
      | Inr brick \<Rightarrow>
          (case assign_cells (grid s) (item_pos it) (cubes brick) pid of
             (Inl e, g) \<Rightarrow> (Inl e, s\<lparr>grid := g\<rparr>)
           | (Inr u, g) \<Rightarrow>
               load_items
                 (s\<lparr>grid := g, placed := dict_set pid (pid, brick, item_pos it) (placed s)\<rparr>)
                 (if pid > max_pid then pid else max_pid) its))"

definition load_from_file :: "CubeGrid \<Rightarrow> snapshot \<Rightarrow> (error + unit) \<times> CubeGrid" where
  "load_from_file s data =
     (let n = (case snap_size data of None \<Rightarrow> 6 | Some k \<Rightarrow> k);
          s1 = s\<lparr>size_g := n\<rparr> in
      case np_zeros n of
        Inl e \<Rightarrow> (Inl e, s1)
      | Inr g \<Rightarrow>
          (case load_items (s1\<lparr>grid := g, placed := []\<rparr>) 0
                  (case snap_placed data of None \<Rightarrow> [] | Some its \<Rightarrow> its) of
             (Inl e, s2) \<Rightarrow> (Inl e, s2)
           | (Inr max_pid, s2) \<Rightarrow>
               (Inr (), s2\<lparr>next_id := (case snap_next_id data of
                                          None \<Rightarrow> max_pid + 1 | Some k \<Rightarrow> k)\<rparr>)))"

section \<open>Reachable states and the grid invariant\<close>

text \<open>
  The states an engine object passes through: a freshly constructed grid, and what
  successful \<^verbatim>\<open>place\<close>, \<^verbatim>\<open>remove\<close>, \<^verbatim>\<open>move\<close> and \<^verbatim>\<open>clear\<close> calls make of it.
  The bricks handed to \<^verbatim>\<open>place\<close> are objects the constructor built.
\<close>

inductive reachable :: "CubeGrid \<Rightarrow> bool" where
  reach_init: "CubeGrid_init n = Inr s \<Longrightarrow> reachable s"
| reach_place: "reachable s \<Longrightarrow> wf_brick b \<Longrightarrow> place s b pos = (Inr pid, s') \<Longrightarrow> reachable s'"
| reach_remove: "reachable s \<Longrightarrow> remove s pid = (Inr (), s') \<Longrightarrow> reachable s'"
| reach_move: "reachable s \<Longrightarrow> move s pid pos = (Inr (), s') \<Longrightarrow> reachable s'"
| reach_clear: "reachable s \<Longrightarrow> reachable (clear s)"

text \<open>
  The grid invariant of the data model: a cell of the grid holds the id \<open>P\<close> exactly when
  \<open>P\<close> is registered and the cell is the registered position plus a cube offset of the
  registered brick; different placements cover disjoint cells; every covered cell lies in
  \<open>[0, N)\<close> on each axis. An id is a positive integer (0 marks an empty cell), which is
  the last conjunct.
\<close>

definition grid_invariant :: "CubeGrid \<Rightarrow> bool" where
  "grid_invariant s =
     ((\<forall>c P. P \<noteq> 0 \<longrightarrow>
         ((in_grid (size_g s) c \<and> cells (grid s) c = P) =
          (\<exists>pid b pos. map_of (placed s) P = Some (pid, b, pos) \<and> c \<in> set (cells_of b pos))))
      \<and> (\<forall>P Q pidP bP posP pidQ bQ posQ.
            P \<noteq> Q \<longrightarrow> map_of (placed s) P = Some (pidP, bP, posP) \<longrightarrow>
            map_of (placed s) Q = Some (pidQ, bQ, posQ) \<longrightarrow>
            set (cells_of bP posP) \<inter> set (cells_of bQ posQ) = {})
      \<and> (\<forall>P pid b pos. map_of (placed s) P = Some (pid, b, pos) \<longrightarrow>
            (\<forall>c \<in> set (cells_of b pos). in_grid (size_g s) c))
      \<and> (\<forall>P v. map_of (placed s) P = Some v \<longrightarrow> 0 < P))"

text \<open>
  The facts about a state that the operations maintain and the proofs below rest on: the
  array has the shape the size field says and is zero outside it; the registry has distinct
  keys, each entry stores its own key, a positive id below \<open>next_id\<close> that fits a cell, and a
  brick whose cells are in the grid and hold that id; every occupied cell is covered by the
  entry of the id it holds; the cached origins are cells of the grid.
\<close>

definition state_ok :: "CubeGrid \<Rightarrow> bool" where
  "state_ok s =
     (0 \<le> size_g s \<and> shape (grid s) = size_g s
      \<and> (\<forall>c. \<not> in_grid (size_g s) c \<longrightarrow> cells (grid s) c = 0)
      \<and> distinct (map fst (placed s))
      \<and> (\<forall>(k, pid, b, pos) \<in> set (placed s).
            pid = k \<and> 1 \<le> k \<and> k < next_id s \<and> int64_ok k \<and> wf_brick b
            \<and> (\<forall>c \<in> set (cells_of b pos). in_grid (size_g s) c \<and> cells (grid s) c = k))
      \<and> (\<forall>c. cells (grid s) c \<noteq> 0 \<longrightarrow>
            (\<exists>(k, pid, b, pos) \<in> set (placed s). k = cells (grid s) c \<and> c \<in> set (cells_of b pos)))
      \<and> 1 \<le> next_id s
      \<and> (\<forall>(nm, os) \<in> set (valid_placements s). \<forall>c \<in> set os. in_grid (size_g s) c))"

text \<open>
  A caller that issues a sequence of place, remove and move calls, goes on after a call that
  raised (as the GUI does), and keeps the ids the place calls returned, in the order of the
  calls.
\<close>

datatype op = Place Brick coord | Remove int | Move int coord

fun run_ops :: "CubeGrid \<Rightarrow> op list \<Rightarrow> int list \<times> CubeGrid" where
  "run_ops s [] = ([], s)"
| "run_ops s (Place b pos # ops) =
     (case place s b pos of
        (Inl e, s') \<Rightarrow> run_ops s' ops
      | (Inr pid, s') \<Rightarrow> (case run_ops s' ops of (ids, s'') \<Rightarrow> (pid # ids, s'')))"
| "run_ops s (Remove pid # ops) = run_ops (snd (remove s pid)) ops"
| "run_ops s (Move pid pos # ops) = run_ops (snd (move s pid pos)) ops"

text \<open>
  Every state an engine object can be in: besides the successful calls above, a call that
  raised leaves the object in the state it had reached, and \<^verbatim>\<open>load_from_file\<close> replaces
  the state by what a document describes.
\<close>

inductive engine_state :: "CubeGrid \<Rightarrow> bool" where
  es_init: "CubeGrid_init n = Inr s \<Longrightarrow> engine_state s"
| es_place: "engine_state s \<Longrightarrow> engine_state (snd (place s b pos))"
| es_remove: "engine_state s \<Longrightarrow> engine_state (snd (remove s pid))"
| es_move: "engine_state s \<Longrightarrow> engine_state (snd (move s pid pos))"
| es_clear: "engine_state s \<Longrightarrow> engine_state (clear s)"
| es_load: "engine_state s \<Longrightarrow> engine_state (snd (load_from_file s data))"

text \<open>
  What every such state keeps: the cells of a registered entry are valid indices of the
  array (a negative index counts from the end), and the id stored with a brick that has
  cubes fits a cell.
\<close>

definition entries_valid :: "CubeGrid \<Rightarrow> bool" where
  "entries_valid s =
     (\<forall>(k, pid, b, pos) \<in> set (placed s).
        (cubes b \<noteq> [] \<longrightarrow> int64_ok pid)
        \<and> (\<forall>c \<in> set (cells_of b pos). \<exists>d. np_coord (shape (grid s)) c = Inr d))"

text \<open>
  What the cell-writing loop of \<^verbatim>\<open>load_from_file\<close> makes of an array when it runs
  through a list of registry entries in order: a later entry overwrites an earlier one.
\<close>

fun paint :: "(int \<times> (int \<times> Brick \<times> coord)) list \<Rightarrow> (coord \<Rightarrow> int) \<Rightarrow> (coord \<Rightarrow> int)" where
  "paint [] f = f"
| "paint ((k, pid, b, pos) # es) f = paint es (\<lambda>c. if c \<in> set (cells_of b pos) then k else f c)"

section \<open>Concrete grids\<close>

text \<open>
  \<^verbatim>\<open>CubeGrid(size=6)\<close> and \<^verbatim>\<open>CubeGrid(size=3)\<close>; the first placement of the demo,
  \<^verbatim>\<open>g.place(b['O'], (0, 0, 0))\<close>; and a grid of size 6 filled completely with 54 flat
  squares, one \<^verbatim>\<open>place\<close> call after the other. The concrete inputs of the theorems
  below are built from these.
\<close>

definition fresh6 :: CubeGrid where
  "fresh6 = projr (CubeGrid_init 6)"

definition fresh3 :: CubeGrid where
  "fresh3 = projr (CubeGrid_init 3)"

definition demo1 :: CubeGrid where
  "demo1 = snd (place fresh6 brick_O (0, 0, 0))"

fun place_all :: "CubeGrid \<Rightarrow> Brick \<Rightarrow> coord list \<Rightarrow> CubeGrid" where
  "place_all s b [] = s"
| "place_all s b (p # ps) = place_all (snd (place s b p)) b ps"

definition o_tiling :: "coord list" where
  "o_tiling = [(x, y, z). x \<leftarrow> [0, 2, 4], y \<leftarrow> [0, 2, 4], z \<leftarrow> py_range 6]"

definition full6 :: CubeGrid where
  "full6 = place_all fresh6 brick_O o_tiling"

text \<open>
  A grid of size 6 whose corner cell \<open>(0, 0, 0)\<close> is empty while its three neighbours
  are occupied, after three \<^verbatim>\<open>place\<close> calls with unrotated templates.
\<close>

definition cornered6 :: CubeGrid where
  "cornered6 =
     snd (place (snd (place (snd (place fresh6 brick_I (1, 0, 0))) brick_T (0, 1, 0)))
            brick_O (0, 0, 1))"

text \<open>
  A grid constructed with size 6 after it has loaded the document saved from an empty grid
  of size 3, as \<^verbatim>\<open>on_load\<close> of the GUI does with a file of another size.
\<close>

definition shrunk3 :: CubeGrid where
  "shrunk3 = snd (load_from_file fresh6 (to_dict fresh3))"

section \<open>The attributes of a grid object (gui_presentation.py, on_check_T_between)\<close>

text \<open>
  The names a \<^verbatim>\<open>CubeGrid\<close> object answers to: the instance attributes that
  \<^verbatim>\<open>__init__\<close> sets and the methods of the class body (the class has no base class
  and no \<^verbatim>\<open>__getattr__\<close>). Looking up another name, the names of \<^verbatim>\<open>object\<close> apart,
  raises AttributeError.
\<close>

definition CubeGrid_attributes :: "string list" where
  "CubeGrid_attributes =
     [''size'', ''grid'', ''next_id'', ''placed'', ''bricks'', ''valid_placements'',
      ''valid_rotations'',
      ''__init__'', ''clear'', ''can_place'', ''place'', ''remove'', ''to_dict'',
      ''save_to_file'', ''load_from_file'', ''can_move'', ''move'', ''num_left'',
      ''validate_placements'', ''can_not_place_somewhere'', ''show'']"

definition getattr_CubeGrid :: "string \<Rightarrow> error + string" where
  "getattr_CubeGrid nm = (if nm \<in> set CubeGrid_attributes then Inr nm else Inl AttributeError)"

section \<open>Properties of the rotation transform\<close>

lemma for_range_funpow: "for_range k f a = (f ^^ k) a"
  by (induction k arbitrary: a) (simp_all add: funpow_swap1)

lemma rot_x_spec: "rot_x = spec_x_step"
  by (auto simp: rot_x_def spec_x_step_def fun_eq_iff)

lemma rot_y_spec: "rot_y = spec_y_step"
  by (auto simp: rot_y_def spec_y_step_def fun_eq_iff)

lemma rot_z_spec: "rot_z = spec_z_step"
  by (auto simp: rot_z_def spec_z_step_def fun_eq_iff)

text \<open>
  Claim C8. For every integer point and all integers \<open>rx\<close>, \<open>ry\<close>, \<open>rz\<close> (negative ones
  included), \<open>rotate_point\<close> is the X-step applied \<open>rx mod 4\<close> times, then the Y-step
  \<open>ry mod 4\<close> times, then the Z-step \<open>rz mod 4\<close> times, in exact integer arithmetic.
\<close>

theorem rotate_point_is_spec_rotate:
  "rotate_point p rx ry rz = spec_rotate p rx ry rz"
  by (simp add: rotate_point_def spec_rotate_def for_range_funpow
      rot_x_spec rot_y_spec rot_z_spec)

section \<open>The array operations on cells of the grid\<close>

lemma np_coord_in_grid: "in_grid n c \<Longrightarrow> np_coord n c = Inr c"
  by (auto simp: in_grid_def np_coord_def np_index_def split: prod.splits)

lemma np_get_in_grid: "in_grid (shape a) c \<Longrightarrow> np_get a c = Inr (cells a c)"
  by (simp add: np_get_def np_coord_in_grid)

lemma np_set_in_grid:
  "in_grid (shape a) c \<Longrightarrow> int64_ok v \<Longrightarrow> np_set a c v = Inr (a\<lparr>cells := (cells a)(c := v)\<rparr>)"
  by (simp add: np_set_def np_coord_in_grid)

lemma np_index_nonneg: "0 \<le> i \<Longrightarrow> np_index n i = Inr j \<Longrightarrow> j = i \<and> i < n"
  by (auto simp: np_index_def split: if_splits)

lemma np_get_nonneg:
  "0 \<le> x \<Longrightarrow> 0 \<le> y \<Longrightarrow> 0 \<le> z \<Longrightarrow> np_get a (x, y, z) = Inr v \<Longrightarrow>
   in_grid (shape a) (x, y, z) \<and> v = cells a (x, y, z)"
  by (auto simp: np_get_def np_coord_def in_grid_def split: sum.splits dest: np_index_nonneg)

lemma assign_cells_in_grid:
  "\<forall>c \<in> set (map (shift pos) cs). in_grid (shape g) c \<Longrightarrow> int64_ok v \<Longrightarrow>
   assign_cells g pos cs v =
     (Inr (), g\<lparr>cells := (\<lambda>c. if c \<in> set (map (shift pos) cs) then v else cells g c)\<rparr>)"
proof (induction cs arbitrary: g)
  case Nil
  then show ?case by (cases pos) simp
next
  case (Cons c cs)
  obtain px py pz where pos: "pos = (px, py, pz)" by (cases pos) auto
  obtain cx cy cz where c: "c = (cx, cy, cz)" by (cases c) auto
  have ing: "in_grid (shape g) (px + cx, py + cy, pz + cz)"
    using Cons.prems(1) by (simp add: pos c)
  let ?g' = "g\<lparr>cells := (cells g)((px + cx, py + cy, pz + cz) := v)\<rparr>"
  have "assign_cells ?g' pos cs v =
     (Inr (), ?g'\<lparr>cells := (\<lambda>c. if c \<in> set (map (shift pos) cs) then v else cells ?g' c)\<rparr>)"
    using Cons.prems by (intro Cons.IH) auto
  then show ?case
    using ing Cons.prems(2) by (auto simp: pos c np_set_in_grid fun_eq_iff)
qed

lemma assign_cells_overflow:
  "\<not> int64_ok v \<Longrightarrow> cs \<noteq> [] \<Longrightarrow> \<exists>e g'. assign_cells g pos cs v = (Inl e, g')"
  by (cases cs; cases pos; cases "hd cs")
     (auto simp: np_set_def split: sum.splits)

lemma assign_cells_success:
  assumes "\<forall>c \<in> set (map (shift pos) cs). in_grid (shape g) c"
    and "assign_cells g pos cs v = (Inr u, g')"
  shows "g' = g\<lparr>cells := (\<lambda>c. if c \<in> set (map (shift pos) cs) then v else cells g c)\<rparr>"
    and "cs \<noteq> [] \<Longrightarrow> int64_ok v"
proof -
  show ok: "cs \<noteq> [] \<Longrightarrow> int64_ok v"
    using assms(2) assign_cells_overflow[of v cs g pos] by auto
  show "g' = g\<lparr>cells := (\<lambda>c. if c \<in> set (map (shift pos) cs) then v else cells g c)\<rparr>"
  proof (cases "cs = []")
    case True
    then show ?thesis using assms(2) by (cases pos) auto
  next
    case False
    then show ?thesis using assign_cells_in_grid[OF assms(1) ok] assms(2) by simp
  qed
qed

lemma can_place_loop_eq:
  "n \<le> shape g \<Longrightarrow>
   can_place_loop n g pos cs = Inr (\<forall>c \<in> set (map (shift pos) cs). in_grid n c \<and> cells g c = 0)"
proof (induction cs)
  case Nil
  then show ?case by (cases pos) simp
next
  case (Cons c cs)
  obtain px py pz where pos: "pos = (px, py, pz)" by (cases pos) auto
  obtain cx cy cz where c: "c = (cx, cy, cz)" by (cases c) auto
  show ?case
  proof (cases "in_grid n (px + cx, py + cy, pz + cz)")
    case True
    then have "in_grid (shape g) (px + cx, py + cy, pz + cz)"
      using Cons.prems by (auto simp: in_grid_def)
    then show ?thesis using True Cons
      by (auto simp: pos c np_get_in_grid in_grid_def Let_def)
  next
    case False
    then show ?thesis by (auto simp: pos c in_grid_def Let_def)
  qed
qed

lemma can_place_loop_True:
  "can_place_loop n g pos cs = Inr True \<Longrightarrow>
   \<forall>c \<in> set (map (shift pos) cs). in_grid n c \<and> in_grid (shape g) c \<and> cells g c = 0"
proof (induction cs)
  case Nil
  then show ?case by simp
next
  case (Cons c cs)
  obtain px py pz where pos: "pos = (px, py, pz)" by (cases pos) auto
  obtain cx cy cz where c: "c = (cx, cy, cz)" by (cases c) auto
  let ?d = "(px + cx, py + cy, pz + cz)"
  from Cons.prems have ing: "in_grid n ?d"
    by (auto simp: pos c in_grid_def Let_def split: if_splits)
  with Cons.prems have "(case np_get g ?d of Inl e \<Rightarrow> Inl e
      | Inr v \<Rightarrow> if v \<noteq> 0 then Inr False else can_place_loop n g (px, py, pz) cs) = Inr True"
    by (simp add: pos c in_grid_def Let_def)
  then obtain v where v: "np_get g ?d = Inr v"
    and rest: "(if v \<noteq> 0 then Inr False else can_place_loop n g pos cs) = Inr True"
    unfolding pos by (cases "np_get g ?d") auto
  from ing v have "in_grid (shape g) ?d \<and> v = cells g ?d"
    by (intro np_get_nonneg) (auto simp: in_grid_def)
  moreover from rest have "v = 0" "can_place_loop n g pos cs = Inr True"
    by (auto split: if_splits)
  ultimately show ?case using ing Cons.IH by (simp add: pos c)
qed

lemma can_move_loop_eq:
  "n \<le> shape g \<Longrightarrow>
   can_move_loop n g k pos cs =
     Inr (\<forall>c \<in> set (map (shift pos) cs). in_grid n c \<and> (cells g c = 0 \<or> cells g c = k))"
proof (induction cs)
  case Nil
  then show ?case by (cases pos) simp
next
  case (Cons c cs)
  obtain px py pz where pos: "pos = (px, py, pz)" by (cases pos) auto
  obtain cx cy cz where c: "c = (cx, cy, cz)" by (cases c) auto
  show ?case
  proof (cases "in_grid n (px + cx, py + cy, pz + cz)")
    case True
    then have "in_grid (shape g) (px + cx, py + cy, pz + cz)"
      using Cons.prems by (auto simp: in_grid_def)
    then show ?thesis using True Cons
      by (auto simp: pos c np_get_in_grid in_grid_def Let_def)
  next
    case False
    then show ?thesis by (auto simp: pos c in_grid_def Let_def)
  qed
qed

lemma map_of_dict_set: "map_of (dict_set k v d) = (map_of d)(k \<mapsto> v)"
  by (simp add: dict_set_def update_conv')

lemma place_Inr:
  assumes "place s b pos = (Inr pid, s1)"
  shows "pid = next_id s"
    and "can_place s b pos = Inr True"
    and "s1 = s\<lparr>grid := (grid s)\<lparr>cells := (\<lambda>c. if c \<in> set (cells_of b pos) then pid
                                               else cells (grid s) c)\<rparr>,
                placed := dict_set pid (pid, b, pos) (placed s),
                next_id := next_id s + 1\<rparr>"
    and "cubes b \<noteq> [] \<Longrightarrow> int64_ok pid"
proof -
  from assms have cp: "can_place s b pos = Inr True"
    by (auto simp: place_def split: sum.splits if_splits)
  then show "can_place s b pos = Inr True" .
  from cp have cells: "\<forall>c \<in> set (map (shift pos) (cubes b)). in_grid (shape (grid s)) c"
    using can_place_loop_True[of "size_g s" "grid s" pos "cubes b"] by (auto simp: can_place_def)
  from assms cp obtain u g where asg: "assign_cells (grid s) pos (cubes b) (next_id s) = (Inr u, g)"
    and pid: "pid = next_id s"
    and s1: "s1 = s\<lparr>grid := g, placed := dict_set pid (pid, b, pos) (placed s),
                    next_id := next_id s + 1\<rparr>"
    by (auto simp: place_def Let_def split: sum.splits prod.splits)
  show "pid = next_id s" by (rule pid)
  from assign_cells_success[OF cells asg] s1
  show "s1 = s\<lparr>grid := (grid s)\<lparr>cells := (\<lambda>c. if c \<in> set (cells_of b pos) then pid
                                               else cells (grid s) c)\<rparr>,
                placed := dict_set pid (pid, b, pos) (placed s),
                next_id := next_id s + 1\<rparr>"
    and "cubes b \<noteq> [] \<Longrightarrow> int64_ok pid"
    unfolding pid by (simp_all add: cells_of_def)
qed

lemma place_succeeds:
  assumes "can_place s b pos = Inr True" and "int64_ok (next_id s)"
  shows "\<exists>s1. place s b pos = (Inr (next_id s), s1)"
proof -
  from assms(1) have "\<forall>c \<in> set (map (shift pos) (cubes b)). in_grid (shape (grid s)) c"
    using can_place_loop_True[of "size_g s" "grid s" pos "cubes b"] by (auto simp: can_place_def)
  from assign_cells_in_grid[OF this assms(2)] assms(1)
  show ?thesis by (simp add: place_def Let_def)
qed

lemma remove_next_id: "next_id (snd (remove s k)) = next_id s"
  by (auto simp: remove_def Let_def split: option.splits prod.splits)

lemma place_remove_grid:
  assumes "place s b pos = (Inr pid, s1)"
  shows "\<exists>s2. remove s1 pid = (Inr (), s2) \<and> grid s2 = grid s \<and> next_id s2 = pid + 1"
proof -
  note p = place_Inr[OF assms]
  from p(2) have zero: "\<forall>c \<in> set (cells_of b pos). in_grid (shape (grid s)) c \<and> cells (grid s) c = 0"
    using can_place_loop_True[of "size_g s" "grid s" pos "cubes b"]
    by (auto simp: can_place_def cells_of_def)
  have look: "map_of (placed s1) pid = Some (pid, b, pos)"
    by (simp add: p(3) map_of_dict_set)
  have ing: "\<forall>c \<in> set (map (shift pos) (cubes b)). in_grid (shape (grid s1)) c"
    using zero by (simp add: p(3) cells_of_def)
  have "int64_ok 0" by (simp add: int64_ok_def)
  from assign_cells_in_grid[OF ing this]
  have asg: "assign_cells (grid s1) pos (cubes b) 0 =
     (Inr (), (grid s1)\<lparr>cells := (\<lambda>c. if c \<in> set (cells_of b pos) then 0 else cells (grid s1) c)\<rparr>)"
    by (simp add: cells_of_def)
  have restored: "(grid s1)\<lparr>cells := (\<lambda>c. if c \<in> set (cells_of b pos) then 0 else cells (grid s1) c)\<rparr>
      = grid s"
    using zero by (auto simp: p(3) fun_eq_iff intro!: ndarray.equality)
  show ?thesis
    using look asg restored by (simp add: remove_def Let_def p(3) p(1))
qed

lemma place_next_id_mono: "next_id s \<le> next_id (snd (place s b pos))"
  by (auto simp: place_def Let_def split: sum.splits prod.splits)

lemma place_Inr_next_id:
  "place s b pos = (Inr pid, s1) \<Longrightarrow> pid = next_id s \<and> next_id s1 = pid + 1"
  by (auto simp: place_def Let_def split: sum.splits prod.splits if_splits)

lemma place_Inl_next_id:
  "place s b pos = (Inl e, s1) \<Longrightarrow> next_id s1 = next_id s"
  by (auto simp: place_def Let_def split: sum.splits prod.splits if_splits)

lemma move_next_id: "next_id (snd (move s k pos)) = next_id s"
  by (auto simp: move_def Let_def split: option.splits sum.splits prod.splits)

lemma run_ops_ids:
  "(\<forall>i \<in> set (fst (run_ops s ops)). next_id s \<le> i) \<and> sorted_wrt (<) (fst (run_ops s ops))"
proof (induction ops arbitrary: s)
  case Nil
  then show ?case by simp
next
  case (Cons a ops)
  show ?case
  proof (cases a)
    case (Place b pos)
    obtain r s' where pl: "place s b pos = (r, s')" by (cases "place s b pos") auto
    note IH = Cons.IH[of s']
    show ?thesis
    proof (cases r)
      case (Inl e)
      with pl have "next_id s' = next_id s" by (auto dest: place_Inl_next_id)
      with IH pl Inl Place show ?thesis by simp
    next
      case (Inr pid)
      with pl have ids: "pid = next_id s" "next_id s' = pid + 1"
        by (auto dest: place_Inr_next_id)
      obtain ids' s'' where ro: "run_ops s' ops = (ids', s'')" by (cases "run_ops s' ops") auto
      with IH have "(\<forall>i \<in> set ids'. next_id s' \<le> i) \<and> sorted_wrt (<) ids'" by simp
      with pl Inr ro ids Place show ?thesis by auto
    qed
  next
    case (Remove k)
    with Cons.IH[of "snd (remove s k)"] show ?thesis by (simp add: remove_next_id)
  next
    case (Move k pos)
    with Cons.IH[of "snd (move s k pos)"] show ?thesis by (simp add: move_next_id)
  qed
qed

section \<open>Construction: the fresh grid and its caches\<close>

lemma Brick_init_4: "length cs = 4 \<Longrightarrow> Brick_init cs nm = Inr \<lparr>cubes = cs, name = (if nm = [] then ''brick'' else nm)\<rparr>"
  by (simp add: Brick_init_def)

lemma rotated_wf:
  "length (cubes b) = 4 \<Longrightarrow> \<exists>r. rotated b rx ry rz = Inr r \<and> length (cubes r) = 4"
  by (simp add: rotated_def Brick_init_def)

lemma normalized_wf:
  "length (cubes b) = 4 \<Longrightarrow> \<exists>r. normalized b = Inr r \<and> length (cubes r) = 4"
  by (cases "cubes b") (auto simp: normalized_def Brick_init_def Let_def split: prod.splits)

lemma collect_rotations_wf:
  "length (cubes b) = 4 \<Longrightarrow> \<exists>rots. collect_rotations b ts = Inr rots \<and> length rots = length ts"
proof (induction ts)
  case Nil
  then show ?case by simp
next
  case (Cons t ts)
  obtain rx ry rz where t: "t = (rx, ry, rz)" by (cases t) auto
  from Cons.prems obtain r where r: "rotated b rx ry rz = Inr r" "length (cubes r) = 4"
    using rotated_wf by blast
  then obtain r' where r': "normalized r = Inr r'" using normalized_wf by blast
  from Cons obtain rots where "collect_rotations b ts = Inr rots" "length rots = length ts" by auto
  with r r' show ?case by (simp add: t)
qed

lemma can_place_ok:
  "size_g s \<le> shape (grid s) \<Longrightarrow>
   can_place s b pos = Inr (\<forall>c \<in> set (cells_of b pos). in_grid (size_g s) c \<and> cells (grid s) c = 0)"
  by (simp add: can_place_def cells_of_def can_place_loop_eq)

lemma can_place_cong:
  "size_g s = size_g s' \<Longrightarrow> grid s = grid s' \<Longrightarrow> can_place s b pos = can_place s' b pos"
  by (simp add: can_place_def)

lemma any_can_place_cong:
  "size_g s = size_g s' \<Longrightarrow> grid s = grid s' \<Longrightarrow> any_can_place s bs pos = any_can_place s' bs pos"
  by (induction bs) (auto simp: can_place_cong[of s s'] split: sum.splits)

lemma scan_origins_cong:
  "size_g s = size_g s' \<Longrightarrow> grid s = grid s' \<Longrightarrow> scan_origins s bs cs = scan_origins s' bs cs"
  by (induction cs) (auto simp: any_can_place_cong[of s s'] split: sum.splits)

lemma any_can_place_ok:
  "size_g s \<le> shape (grid s) \<Longrightarrow>
   any_can_place s bs pos = Inr (\<exists>b \<in> set bs. can_place s b pos = Inr True)"
  by (induction bs) (auto simp: can_place_ok)

lemma scan_origins_ok:
  "size_g s \<le> shape (grid s) \<Longrightarrow>
   scan_origins s bs cs = Inr (filter (\<lambda>c. any_can_place s bs c = Inr True) cs)"
  by (induction cs) (auto simp: any_can_place_ok)

lemma in_grid_origins: "c \<in> set (grid_origins n) \<longleftrightarrow> in_grid n c"
  by (cases c) (force simp: grid_origins_def py_range_def in_grid_def)

lemma dict_set_keys: "fst ` set (dict_set k v d) = insert k (fst ` set d)"
  using dom_update[of k v d] by (simp add: dict_set_def dom_map_of_conv_image_fst)

lemma dict_set_map_fst: "k \<in> fst ` set d \<Longrightarrow> map fst (dict_set k v d) = map fst d"
  by (simp add: dict_set_def update_keys)

lemma dict_set_same: "map_of d k = Some v \<Longrightarrow> dict_set k v d = d"
  by (simp add: dict_set_def update_triv)

lemma init_caches_present:
  assumes old: "map_of (valid_placements s) (name b) = Some old"
  shows "init_caches s (b # rest) =
     (case collect_rotations b rotation_triples of
        Inl e \<Rightarrow> Inl e
      | Inr rots \<Rightarrow>
          (case scan_origins s rots (grid_origins (size_g s)) of
             Inl e \<Rightarrow> Inl e
           | Inr found \<Rightarrow>
               init_caches
                 (s\<lparr>valid_rotations := dict_set (name b) rots (valid_rotations s),
                    valid_placements :=
                      dict_set (name b) (set_add_all old found) (valid_placements s)\<rparr>)
                 rest))"
proof (cases "collect_rotations b rotation_triples")
  case (Inl e)
  then show ?thesis by simp
next
  case (Inr rots)
  let ?s1 = "s\<lparr>valid_rotations := dict_set (name b) rots (valid_rotations s)\<rparr>"
  have sc: "scan_origins ?s1 rots (grid_origins (size_g s)) =
            scan_origins s rots (grid_origins (size_g s))"
    by (simp add: scan_origins_cong[of ?s1 s])
  show ?thesis
  proof (cases "scan_origins s rots (grid_origins (size_g s))")
    case (Inl e)
    with Inr sc show ?thesis by (simp add: Let_def)
  next
    case found: (Inr found)
    show ?thesis
    proof (cases "found = []")
      case True
      have "dict_set (name b) (set_add_all old []) (valid_placements s) = valid_placements s"
        using old by (simp add: set_add_all_def dict_set_same)
      with Inr found sc True show ?thesis by (simp add: Let_def)
    next
      case False
      with Inr found sc old show ?thesis by (simp add: Let_def)
    qed
  qed
qed

lemma init_caches_step:
  assumes "init_caches s (b # rest) = Inr s'"
    and old: "map_of (valid_placements s) (name b) = Some old"
  obtains rots found where
    "collect_rotations b rotation_triples = Inr rots"
    "scan_origins s rots (grid_origins (size_g s)) = Inr found"
    "init_caches
       (s\<lparr>valid_rotations := dict_set (name b) rots (valid_rotations s),
          valid_placements := dict_set (name b) (set_add_all old found) (valid_placements s)\<rparr>)
       rest = Inr s'"
proof -
  note eq = assms(1)[unfolded init_caches_present[OF old]]
  from eq obtain rots where rots: "collect_rotations b rotation_triples = Inr rots"
    by (cases "collect_rotations b rotation_triples") auto
  from eq rots obtain found where found: "scan_origins s rots (grid_origins (size_g s)) = Inr found"
    by (cases "scan_origins s rots (grid_origins (size_g s))") auto
  from eq rots found
  have "init_caches
       (s\<lparr>valid_rotations := dict_set (name b) rots (valid_rotations s),
          valid_placements := dict_set (name b) (set_add_all old found) (valid_placements s)\<rparr>)
       rest = Inr s'"
    by simp
  with rots found show thesis by (rule that)
qed

lemma init_caches_result:
  "init_caches s bs = Inr s' \<Longrightarrow> distinct (map name bs) \<Longrightarrow>
   \<forall>b \<in> set bs. name b \<in> fst ` set (valid_placements s) \<Longrightarrow>
   size_g s' = size_g s \<and> grid s' = grid s \<and> next_id s' = next_id s \<and> placed s' = placed s
   \<and> bricks s' = bricks s
   \<and> (\<forall>b \<in> set bs. \<exists>rots found old.
          collect_rotations b rotation_triples = Inr rots
          \<and> map_of (valid_rotations s') (name b) = Some rots
          \<and> scan_origins s rots (grid_origins (size_g s)) = Inr found
          \<and> map_of (valid_placements s) (name b) = Some old
          \<and> map_of (valid_placements s') (name b) = Some (set_add_all old found))
   \<and> (\<forall>nm. nm \<notin> name ` set bs \<longrightarrow>
          map_of (valid_placements s') nm = map_of (valid_placements s) nm
          \<and> map_of (valid_rotations s') nm = map_of (valid_rotations s) nm)
   \<and> map fst (valid_placements s') = map fst (valid_placements s)"
proof (induction bs arbitrary: s)
  case Nil
  then show ?case by simp
next
  case (Cons b rest)
  from Cons.prems(3) have keys: "name b \<in> fst ` set (valid_placements s)" by simp
  then obtain old where old: "map_of (valid_placements s) (name b) = Some old"
    by (cases "map_of (valid_placements s) (name b)") (auto simp: map_of_eq_None_iff)
  from Cons.prems(1) old obtain rots found where
    rots: "collect_rotations b rotation_triples = Inr rots" and
    found: "scan_origins s rots (grid_origins (size_g s)) = Inr found" and
    rest: "init_caches
       (s\<lparr>valid_rotations := dict_set (name b) rots (valid_rotations s),
          valid_placements := dict_set (name b) (set_add_all old found) (valid_placements s)\<rparr>)
       rest = Inr s'"
    by (rule init_caches_step)
  let ?s2 = "s\<lparr>valid_rotations := dict_set (name b) rots (valid_rotations s),
          valid_placements := dict_set (name b) (set_add_all old found) (valid_placements s)\<rparr>"
  from Cons.prems(2) have dist: "distinct (map name rest)" and fresh: "name b \<notin> name ` set rest"
    by auto
  have keys2: "\<forall>b' \<in> set rest. name b' \<in> fst ` set (valid_placements ?s2)"
    using Cons.prems(3) by (simp add: dict_set_keys)
  note IH = Cons.IH[OF rest dist keys2]
  have sc: "\<And>r cs. scan_origins ?s2 r cs = scan_origins s r cs"
    by (simp add: scan_origins_cong[of ?s2 s])
  have "\<forall>b' \<in> set (b # rest). \<exists>rots found old.
          collect_rotations b' rotation_triples = Inr rots
          \<and> map_of (valid_rotations s') (name b') = Some rots
          \<and> scan_origins s rots (grid_origins (size_g s)) = Inr found
          \<and> map_of (valid_placements s) (name b') = Some old
          \<and> map_of (valid_placements s') (name b') = Some (set_add_all old found)"
  proof
    fix b' assume b': "b' \<in> set (b # rest)"
    show "\<exists>rots found old.
          collect_rotations b' rotation_triples = Inr rots
          \<and> map_of (valid_rotations s') (name b') = Some rots
          \<and> scan_origins s rots (grid_origins (size_g s)) = Inr found
          \<and> map_of (valid_placements s) (name b') = Some old
          \<and> map_of (valid_placements s') (name b') = Some (set_add_all old found)"
    proof (cases "b' \<in> set rest")
      case True
      with fresh have ne: "name b' \<noteq> name b" by (metis imageI)
      from IH True obtain rots' found' old' where
        "collect_rotations b' rotation_triples = Inr rots'"
        "map_of (valid_rotations s') (name b') = Some rots'"
        "scan_origins ?s2 rots' (grid_origins (size_g ?s2)) = Inr found'"
        "map_of (valid_placements ?s2) (name b') = Some old'"
        "map_of (valid_placements s') (name b') = Some (set_add_all old' found')"
        by blast
      with ne show ?thesis by (simp add: sc map_of_dict_set)
    next
      case False
      with b' have eq: "b' = b" by simp
      from IH fresh have "map_of (valid_placements s') (name b) = map_of (valid_placements ?s2) (name b)"
        "map_of (valid_rotations s') (name b) = map_of (valid_rotations ?s2) (name b)"
        by blast+
      with rots found old show ?thesis by (simp add: eq map_of_dict_set)
    qed
  qed
  moreover have "\<forall>nm. nm \<notin> name ` set (b # rest) \<longrightarrow>
          map_of (valid_placements s') nm = map_of (valid_placements s) nm
          \<and> map_of (valid_rotations s') nm = map_of (valid_rotations s) nm"
    using IH by (auto simp: map_of_dict_set)
  moreover have "map fst (valid_placements s') = map fst (valid_placements s)"
    using IH keys by (simp add: dict_set_map_fst)
  ultimately show ?case using IH by simp
qed

lemma init_caches_succeeds:
  "\<forall>b \<in> set bs. length (cubes b) = 4 \<and> name b \<in> fst ` set (valid_placements s) \<Longrightarrow>
   size_g s \<le> shape (grid s) \<Longrightarrow> \<exists>s'. init_caches s bs = Inr s'"
proof (induction bs arbitrary: s)
  case Nil
  then show ?case by simp
next
  case (Cons b rest)
  from Cons.prems obtain rots where rots: "collect_rotations b rotation_triples = Inr rots"
    using collect_rotations_wf[of b rotation_triples] by auto
  let ?s1 = "s\<lparr>valid_rotations := dict_set (name b) rots (valid_rotations s)\<rparr>"
  have sc: "scan_origins ?s1 rots (grid_origins (size_g s)) =
     Inr (filter (\<lambda>c. any_can_place ?s1 rots c = Inr True) (grid_origins (size_g s)))"
    using Cons.prems(2) by (simp add: scan_origins_ok)
  from Cons.prems(1) obtain old where old: "map_of (valid_placements s) (name b) = Some old"
    by (cases "map_of (valid_placements s) (name b)") (auto simp: map_of_eq_None_iff)
  let ?s2 = "?s1\<lparr>valid_placements := dict_set (name b)
      (set_add_all old (filter (\<lambda>c. any_can_place ?s1 rots c = Inr True) (grid_origins (size_g s))))
      (valid_placements ?s1)\<rparr>"
  have sc': "scan_origins s rots (grid_origins (size_g s)) =
     Inr (filter (\<lambda>c. any_can_place ?s1 rots c = Inr True) (grid_origins (size_g s)))"
    using sc by (simp add: scan_origins_cong[of ?s1 s])
  have "\<exists>s'. init_caches ?s2 rest = Inr s'"
    using Cons.prems by (intro Cons.IH) (auto simp: dict_set_keys)
  with rots sc' show ?case by (subst init_caches_present[OF old]) simp
qed

lemmas brick_defs = brick_T_def brick_I_def brick_L_def brick_O_def brick_S3D_def

lemma default_bricks_names: "map name (map snd default_bricks) = map fst default_bricks"
  by (simp add: default_bricks_def brick_defs)

lemma default_bricks_keys: "map fst default_bricks = [''T'', ''I'', ''L'', ''O'', ''S3D'']"
  by (simp add: default_bricks_def)

lemma default_bricks_wf: "(nm, b) \<in> set default_bricks \<Longrightarrow> wf_brick b \<and> name b = nm"
  by (auto simp: default_bricks_def brick_defs wf_brick_def)

lemma CubeGrid_init_succeeds: "0 \<le> n \<Longrightarrow> \<exists>s. CubeGrid_init n = Inr s"
  unfolding CubeGrid_init_def np_zeros_def
  by (simp, intro init_caches_succeeds) (auto simp: default_bricks_def brick_defs)

lemma CubeGrid_init_neg: "n < 0 \<Longrightarrow> CubeGrid_init n = Inl ValueError"
  by (simp add: CubeGrid_init_def np_zeros_def)

lemma CubeGrid_init_result:
  assumes "CubeGrid_init n = Inr s"
  shows "0 \<le> n" and "size_g s = n" and "grid s = \<lparr>shape = n, cells = (\<lambda>c. 0)\<rparr>"
    and "next_id s = 1" and "placed s = []" and "bricks s = default_bricks"
    and "map fst (valid_placements s) = [''T'', ''I'', ''L'', ''O'', ''S3D'']"
    and "\<And>nm b. (nm, b) \<in> set default_bricks \<Longrightarrow>
          \<exists>rots. collect_rotations b rotation_triples = Inr rots
            \<and> map_of (valid_rotations s) nm = Some rots
            \<and> map_of (valid_placements s) nm =
                Some (filter (\<lambda>c. any_can_place s rots c = Inr True) (grid_origins n))"
    and "\<And>nm. nm \<notin> fst ` set default_bricks \<Longrightarrow>
          map_of (valid_placements s) nm = None \<and> map_of (valid_rotations s) nm = None"
proof -
  let ?empty = "[(''T'', []), (''I'', []), (''L'', []), (''O'', []), (''S3D'', [])]"
  let ?s0 = "\<lparr>size_g = n, grid = \<lparr>shape = n, cells = (\<lambda>c. 0)\<rparr>, next_id = 1, placed = [],
              bricks = default_bricks, valid_placements = ?empty, valid_rotations = ?empty\<rparr>"
  from assms show n: "0 \<le> n"
    by (auto simp: CubeGrid_init_def np_zeros_def split: if_splits)
  with assms have ic: "init_caches ?s0 (map snd default_bricks) = Inr s"
    by (simp add: CubeGrid_init_def np_zeros_def)
  have dist: "distinct (map name (map snd default_bricks))"
    unfolding default_bricks_names default_bricks_keys by simp
  have keys: "\<forall>b \<in> set (map snd default_bricks). name b \<in> fst ` set (valid_placements ?s0)"
    by (simp add: default_bricks_def brick_defs)
  note res = init_caches_result[OF ic dist keys]
  from res show "size_g s = n" "grid s = \<lparr>shape = n, cells = (\<lambda>c. 0)\<rparr>"
    "next_id s = 1" "placed s = []" "bricks s = default_bricks"
    "map fst (valid_placements s) = [''T'', ''I'', ''L'', ''O'', ''S3D'']"
    by simp_all
  have sz: "size_g s = n" "grid s = grid ?s0" using res by simp_all
  show "\<exists>rots. collect_rotations b rotation_triples = Inr rots
            \<and> map_of (valid_rotations s) nm = Some rots
            \<and> map_of (valid_placements s) nm =
                Some (filter (\<lambda>c. any_can_place s rots c = Inr True) (grid_origins n))"
    if "(nm, b) \<in> set default_bricks" for nm b
  proof -
    from that have nm: "name b = nm" and b: "b \<in> set (map snd default_bricks)"
      by (auto dest: default_bricks_wf intro: rev_image_eqI)
    from res b obtain rots found old where
      r: "collect_rotations b rotation_triples = Inr rots"
      "map_of (valid_rotations s) (name b) = Some rots"
      "scan_origins ?s0 rots (grid_origins (size_g ?s0)) = Inr found"
      "map_of (valid_placements ?s0) (name b) = Some old"
      "map_of (valid_placements s) (name b) = Some (set_add_all old found)"
      by blast
    from r(4) have old: "old = []" by (auto split: if_splits)
    have "scan_origins ?s0 rots (grid_origins (size_g ?s0)) = scan_origins s rots (grid_origins n)"
      using sz by (simp add: scan_origins_cong[of ?s0 s])
    also have "\<dots> = Inr (filter (\<lambda>c. any_can_place s rots c = Inr True) (grid_origins n))"
      using sz by (intro scan_origins_ok) simp
    finally have "found = filter (\<lambda>c. any_can_place s rots c = Inr True) (grid_origins n)"
      using r(3) by simp
    with r old nm show ?thesis by (simp add: set_add_all_def)
  qed
  show "map_of (valid_placements s) nm = None \<and> map_of (valid_rotations s) nm = None"
    if "nm \<notin> fst ` set default_bricks" for nm
  proof -
    from that have "nm \<notin> name ` set (map snd default_bricks)"
      using default_bricks_names by (metis list.set_map)
    with res have "map_of (valid_placements s) nm = map_of (valid_placements ?s0) nm"
      "map_of (valid_rotations s) nm = map_of (valid_rotations ?s0) nm" by blast+
    with that show ?thesis by (simp add: default_bricks_def)
  qed
qed

section \<open>The state invariant and its preservation\<close>

lemma state_okI:
  assumes "0 \<le> size_g s" and "shape (grid s) = size_g s"
    and "\<And>c. \<not> in_grid (size_g s) c \<Longrightarrow> cells (grid s) c = 0"
    and "distinct (map fst (placed s))"
    and "\<And>k pid b pos. (k, pid, b, pos) \<in> set (placed s) \<Longrightarrow>
           pid = k \<and> 1 \<le> k \<and> k < next_id s \<and> int64_ok k \<and> wf_brick b
           \<and> (\<forall>c \<in> set (cells_of b pos). in_grid (size_g s) c \<and> cells (grid s) c = k)"
    and "\<And>c. cells (grid s) c \<noteq> 0 \<Longrightarrow>
           \<exists>pid b pos. (cells (grid s) c, pid, b, pos) \<in> set (placed s) \<and> c \<in> set (cells_of b pos)"
    and "1 \<le> next_id s"
    and "\<And>nm os c. (nm, os) \<in> set (valid_placements s) \<Longrightarrow> c \<in> set os \<Longrightarrow> in_grid (size_g s) c"
  shows "state_ok s"
  unfolding state_ok_def
proof (intro conjI)
  show "\<forall>(k, pid, b, pos) \<in> set (placed s).
            pid = k \<and> 1 \<le> k \<and> k < next_id s \<and> int64_ok k \<and> wf_brick b
            \<and> (\<forall>c \<in> set (cells_of b pos). in_grid (size_g s) c \<and> cells (grid s) c = k)"
  proof
    fix x assume x: "x \<in> set (placed s)"
    obtain k pid b pos where eq: "x = (k, pid, b, pos)" by (metis prod_cases4)
    from assms(5)[OF x[unfolded eq]]
    show "case x of (k, pid, b, pos) \<Rightarrow>
            pid = k \<and> 1 \<le> k \<and> k < next_id s \<and> int64_ok k \<and> wf_brick b
            \<and> (\<forall>c \<in> set (cells_of b pos). in_grid (size_g s) c \<and> cells (grid s) c = k)"
      unfolding eq by simp
  qed
  show "\<forall>c. cells (grid s) c \<noteq> 0 \<longrightarrow>
            (\<exists>(k, pid, b, pos) \<in> set (placed s). k = cells (grid s) c \<and> c \<in> set (cells_of b pos))"
  proof (intro allI impI)
    fix c assume "cells (grid s) c \<noteq> 0"
    from assms(6)[OF this] obtain pid b pos where
      "(cells (grid s) c, pid, b, pos) \<in> set (placed s)" "c \<in> set (cells_of b pos)" by blast
    then show "\<exists>(k, pid, b, pos) \<in> set (placed s). k = cells (grid s) c \<and> c \<in> set (cells_of b pos)"
      by (intro bexI[of _ "(cells (grid s) c, pid, b, pos)"]) simp_all
  qed
  show "\<forall>(nm, os) \<in> set (valid_placements s). \<forall>c \<in> set os. in_grid (size_g s) c"
  proof
    fix x assume x: "x \<in> set (valid_placements s)"
    obtain nm os where eq: "x = (nm, os)" by (cases x)
    from assms(8)[OF x[unfolded eq]]
    show "case x of (nm, os) \<Rightarrow> \<forall>c \<in> set os. in_grid (size_g s) c"
      unfolding eq by simp
  qed
  show "\<forall>c. \<not> in_grid (size_g s) c \<longrightarrow> cells (grid s) c = 0"
    using assms(3) by blast
qed (use assms in blast)+

lemma state_ok_shape: "state_ok s \<Longrightarrow> 0 \<le> size_g s \<and> shape (grid s) = size_g s"
  by (simp add: state_ok_def)

lemma state_ok_outside: "state_ok s \<Longrightarrow> \<not> in_grid (size_g s) c \<Longrightarrow> cells (grid s) c = 0"
  unfolding state_ok_def by blast

lemma state_ok_distinct: "state_ok s \<Longrightarrow> distinct (map fst (placed s))"
  by (simp add: state_ok_def)

lemma state_ok_entry:
  "state_ok s \<Longrightarrow> (k, pid, b, pos) \<in> set (placed s) \<Longrightarrow>
   pid = k \<and> 1 \<le> k \<and> k < next_id s \<and> int64_ok k \<and> wf_brick b
   \<and> (\<forall>c \<in> set (cells_of b pos). in_grid (size_g s) c \<and> cells (grid s) c = k)"
  unfolding state_ok_def by fast

lemma state_ok_cover:
  "state_ok s \<Longrightarrow> cells (grid s) c \<noteq> 0 \<Longrightarrow>
   \<exists>pid b pos. (cells (grid s) c, pid, b, pos) \<in> set (placed s) \<and> c \<in> set (cells_of b pos)"
  unfolding state_ok_def by fast

lemma state_ok_next_id: "state_ok s \<Longrightarrow> 1 \<le> next_id s"
  by (simp add: state_ok_def)

lemma state_ok_cache:
  "state_ok s \<Longrightarrow> (nm, os) \<in> set (valid_placements s) \<Longrightarrow> c \<in> set os \<Longrightarrow> in_grid (size_g s) c"
  unfolding state_ok_def by fast

lemma state_ok_lookup:
  "state_ok s \<Longrightarrow> map_of (placed s) k = Some v \<longleftrightarrow> (k, v) \<in> set (placed s)"
  by (simp add: state_ok_distinct)

lemma state_ok_init:
  assumes "CubeGrid_init n = Inr s"
  shows "state_ok s"
proof (rule state_okI)
  note r = CubeGrid_init_result[OF assms]
  show "0 \<le> size_g s" "shape (grid s) = size_g s" "distinct (map fst (placed s))" "1 \<le> next_id s"
    using r by simp_all
  show "cells (grid s) c = 0" for c using r by simp
  show "pid = k \<and> 1 \<le> k \<and> k < next_id s \<and> int64_ok k \<and> wf_brick b
           \<and> (\<forall>c \<in> set (cells_of b pos). in_grid (size_g s) c \<and> cells (grid s) c = k)"
    if "(k, pid, b, pos) \<in> set (placed s)" for k pid b pos
    using that r by simp
  show "\<exists>pid b pos. (cells (grid s) c, pid, b, pos) \<in> set (placed s) \<and> c \<in> set (cells_of b pos)"
    if "cells (grid s) c \<noteq> 0" for c
    using that r by simp
  show "in_grid (size_g s) c" if "(nm, os) \<in> set (valid_placements s)" "c \<in> set os" for nm os c
  proof -
    have dist: "distinct (map fst (valid_placements s))" using r(7) by simp
    from that(1) have "nm \<in> set (map fst (valid_placements s))" by force
    then have "nm \<in> fst ` set default_bricks"
      unfolding r(7) using default_bricks_keys by (metis list.set_map)
    then obtain b where "(nm, b) \<in> set default_bricks" by auto
    from r(8)[OF this] obtain rots where
      "map_of (valid_placements s) nm =
         Some (filter (\<lambda>c. any_can_place s rots c = Inr True) (grid_origins n))" by blast
    with dist that(1) have "os = filter (\<lambda>c. any_can_place s rots c = Inr True) (grid_origins n)"
      by simp
    with that(2) show ?thesis using r(2) by (simp add: in_grid_origins)
  qed
qed

lemma update_absent: "k \<notin> fst ` set d \<Longrightarrow> AList.update k v d = d @ [(k, v)]"
  by (induction d) auto

lemma state_ok_place:
  assumes ok: "state_ok s" and wf: "wf_brick b" and pl: "place s b pos = (Inr pid, s')"
  shows "state_ok s'"
proof -
  note p = place_Inr[OF pl]
  from wf have ne: "cubes b \<noteq> []" by (auto simp: wf_brick_def)
  note i64 = p(4)[OF ne]
  have free: "\<forall>c \<in> set (cells_of b pos). in_grid (size_g s) c \<and> cells (grid s) c = 0"
    using p(2) state_ok_shape[OF ok] by (simp add: can_place_ok)
  have fresh: "pid \<notin> fst ` set (placed s)"
    using state_ok_entry[OF ok] p(1) by fastforce
  have pl': "placed s' = placed s @ [(pid, pid, b, pos)]"
    by (simp add: p(3) dict_set_def update_absent[OF fresh])
  have cells': "cells (grid s') c = (if c \<in> set (cells_of b pos) then pid else cells (grid s) c)" for c
    by (simp add: p(3))
  have sz: "size_g s' = size_g s" "shape (grid s') = shape (grid s)" "next_id s' = next_id s + 1"
    "valid_placements s' = valid_placements s"
    by (simp_all add: p(3))
  have pid1: "1 \<le> pid" using state_ok_next_id[OF ok] p(1) by simp
  show ?thesis
  proof (rule state_okI)
    show "0 \<le> size_g s'" "shape (grid s') = size_g s'" "1 \<le> next_id s'"
      using state_ok_shape[OF ok] state_ok_next_id[OF ok] by (simp_all add: sz)
    show "cells (grid s') c = 0" if "\<not> in_grid (size_g s') c" for c
      using that free state_ok_outside[OF ok, of c] by (auto simp: cells' sz)
    show "distinct (map fst (placed s'))"
      using state_ok_distinct[OF ok] fresh by (simp add: pl')
    show "pid' = k \<and> 1 \<le> k \<and> k < next_id s' \<and> int64_ok k \<and> wf_brick b'
           \<and> (\<forall>c \<in> set (cells_of b' pos'). in_grid (size_g s') c \<and> cells (grid s') c = k)"
      if "(k, pid', b', pos') \<in> set (placed s')" for k pid' b' pos'
    proof (cases "(k, pid', b', pos') \<in> set (placed s)")
      case True
      note e = state_ok_entry[OF ok True]
      have "c \<notin> set (cells_of b pos)" if "c \<in> set (cells_of b' pos')" for c
        using e that free by fastforce
      with e show ?thesis by (auto simp: cells' sz)
    next
      case False
      with that have "k = pid" "pid' = pid" "b' = b" "pos' = pos" by (auto simp: pl')
      with free wf i64 pid1 p(1) show ?thesis by (auto simp: cells' sz)
    qed
    show "\<exists>pid' b' pos'. (cells (grid s') c, pid', b', pos') \<in> set (placed s') \<and> c \<in> set (cells_of b' pos')"
      if "cells (grid s') c \<noteq> 0" for c
    proof (cases "c \<in> set (cells_of b pos)")
      case True
      then show ?thesis
        by (intro exI[of _ pid] exI[of _ b] exI[of _ pos]) (simp add: cells' pl')
    next
      case False
      with that have nz: "cells (grid s) c \<noteq> 0" and eq: "cells (grid s') c = cells (grid s) c"
        by (simp_all add: cells')
      from state_ok_cover[OF ok nz] obtain pid' b' pos' where
        "(cells (grid s) c, pid', b', pos') \<in> set (placed s)" "c \<in> set (cells_of b' pos')"
        by blast
      then show ?thesis
        by (intro exI[of _ pid'] exI[of _ b'] exI[of _ pos']) (simp add: eq pl')
    qed
    show "in_grid (size_g s') c" if "(nm, os) \<in> set (valid_placements s')" "c \<in> set os" for nm os c
      using that state_ok_cache[OF ok] by (simp add: sz)
  qed
qed

lemma int64_ok_0: "int64_ok 0"
  by (simp add: int64_ok_def)

lemma set_dict_pop: "set (dict_pop k d) = {x \<in> set d. fst x \<noteq> k}"
  by (auto simp: dict_pop_def AList.delete_eq)

lemma distinct_dict_pop: "distinct (map fst d) \<Longrightarrow> distinct (map fst (dict_pop k d))"
  by (simp add: dict_pop_def distinct_delete)

lemma distinct_dict_set: "distinct (map fst d) \<Longrightarrow> distinct (map fst (dict_set k v d))"
  by (simp add: dict_set_def distinct_update)

lemma set_dict_set:
  assumes "distinct (map fst d)"
  shows "(k', v') \<in> set (dict_set k v d) \<longleftrightarrow> (k' = k \<and> v' = v) \<or> (k' \<noteq> k \<and> (k', v') \<in> set d)"
proof -
  have "(k', v') \<in> set (dict_set k v d) \<longleftrightarrow> map_of (dict_set k v d) k' = Some v'"
    using distinct_dict_set[OF assms] by simp
  also have "\<dots> \<longleftrightarrow> (k' = k \<and> v' = v) \<or> (k' \<noteq> k \<and> map_of d k' = Some v')"
    by (auto simp: map_of_dict_set)
  finally show ?thesis using assms by simp
qed

lemma remove_unknown: "map_of (placed s) k = None \<Longrightarrow> remove s k = (Inl KeyError, s)"
  by (simp add: remove_def)

lemma remove_ok:
  assumes ok: "state_ok s" and e: "(k, pid, b, pos) \<in> set (placed s)"
  shows "remove s k =
     (Inr (), s\<lparr>placed := dict_pop k (placed s),
                grid := (grid s)\<lparr>cells := (\<lambda>c. if c \<in> set (cells_of b pos) then 0
                                             else cells (grid s) c)\<rparr>\<rparr>)"
proof -
  from e have look: "map_of (placed s) k = Some (pid, b, pos)"
    using state_ok_distinct[OF ok] by simp
  have "\<forall>c \<in> set (map (shift pos) (cubes b)). in_grid (shape (grid s)) c"
    using state_ok_entry[OF ok e] state_ok_shape[OF ok] by (simp add: cells_of_def)
  from assign_cells_in_grid[OF this int64_ok_0] look
  show ?thesis by (simp add: remove_def Let_def cells_of_def)
qed

lemma can_move_ok:
  assumes ok: "state_ok s" and e: "(k, pid, b, pos) \<in> set (placed s)"
  shows "can_move s k new_pos =
     Inr (\<forall>c \<in> set (cells_of b new_pos).
            in_grid (size_g s) c \<and> (cells (grid s) c = 0 \<or> cells (grid s) c = k))"
proof -
  from e have look: "map_of (placed s) k = Some (pid, b, pos)"
    using state_ok_distinct[OF ok] by simp
  then show ?thesis
    using state_ok_shape[OF ok] by (simp add: can_move_def can_move_loop_eq cells_of_def)
qed

lemma can_move_unknown: "map_of (placed s) k = None \<Longrightarrow> can_move s k new_pos = Inr False"
  by (simp add: can_move_def)

lemma move_unknown: "map_of (placed s) k = None \<Longrightarrow> move s k new_pos = (Inl KeyError, s)"
  by (simp add: move_def)

lemma move_refused:
  assumes ok: "state_ok s" and "map_of (placed s) k \<noteq> None" and "can_move s k new_pos = Inr False"
  shows "move s k new_pos = (Inl ValueError, s)"
  using assms by (auto simp: move_def)

lemma move_ok:
  assumes ok: "state_ok s" and e: "(k, pid, b, pos) \<in> set (placed s)"
    and cm: "can_move s k new_pos = Inr True"
  shows "move s k new_pos =
     (Inr (), s\<lparr>grid := (grid s)\<lparr>cells := (\<lambda>c. if c \<in> set (cells_of b new_pos) then k
                                             else if c \<in> set (cells_of b pos) then 0
                                             else cells (grid s) c)\<rparr>,
                placed := dict_set k (k, b, new_pos) (placed s)\<rparr>)"
proof -
  from e have look: "map_of (placed s) k = Some (pid, b, pos)"
    using state_ok_distinct[OF ok] by simp
  note en = state_ok_entry[OF ok e]
  then have pid: "pid = k" by simp
  have old_in: "\<forall>c \<in> set (map (shift pos) (cubes b)). in_grid (shape (grid s)) c"
    using en state_ok_shape[OF ok] by (simp add: cells_of_def)
  let ?g1 = "(grid s)\<lparr>cells := (\<lambda>c. if c \<in> set (map (shift pos) (cubes b)) then 0
                                    else cells (grid s) c)\<rparr>"
  have a1: "assign_cells (grid s) pos (cubes b) 0 = (Inr (), ?g1)"
    by (rule assign_cells_in_grid[OF old_in int64_ok_0])
  have new_in: "\<forall>c \<in> set (map (shift new_pos) (cubes b)). in_grid (shape ?g1) c"
    using cm can_move_ok[OF ok e, of new_pos] state_ok_shape[OF ok] by (simp add: cells_of_def)
  have i64: "int64_ok k" using en by simp
  have a2: "assign_cells ?g1 new_pos (cubes b) k =
     (Inr (), ?g1\<lparr>cells := (\<lambda>c. if c \<in> set (map (shift new_pos) (cubes b)) then k
                                else cells ?g1 c)\<rparr>)"
    by (rule assign_cells_in_grid[OF new_in i64])
  show ?thesis
    using look cm a1 a2 by (simp add: move_def pid cells_of_def cong: if_cong)
qed

lemma remove_Inr:
  assumes ok: "state_ok s" and "remove s k = (Inr u, s')"
  obtains pid b pos where "(k, pid, b, pos) \<in> set (placed s)"
    "s' = s\<lparr>placed := dict_pop k (placed s),
            grid := (grid s)\<lparr>cells := (\<lambda>c. if c \<in> set (cells_of b pos) then 0
                                         else cells (grid s) c)\<rparr>\<rparr>"
proof (cases "map_of (placed s) k")
  case None
  with assms(2) show ?thesis by (simp add: remove_unknown)
next
  case (Some v)
  obtain pid b pos where v: "v = (pid, b, pos)" by (cases v)
  from Some have e: "(k, pid, b, pos) \<in> set (placed s)"
    unfolding v by (rule map_of_SomeD)
  from remove_ok[OF ok e] assms(2) that[OF e] show ?thesis by simp
qed

lemma move_Inr:
  assumes ok: "state_ok s" and "move s k new_pos = (Inr u, s')"
  obtains pid b pos where "(k, pid, b, pos) \<in> set (placed s)"
    "can_move s k new_pos = Inr True"
    "s' = s\<lparr>grid := (grid s)\<lparr>cells := (\<lambda>c. if c \<in> set (cells_of b new_pos) then k
                                             else if c \<in> set (cells_of b pos) then 0
                                             else cells (grid s) c)\<rparr>,
                placed := dict_set k (k, b, new_pos) (placed s)\<rparr>"
proof (cases "map_of (placed s) k")
  case None
  with assms(2) show ?thesis by (simp add: move_unknown)
next
  case (Some v)
  obtain pid b pos where v: "v = (pid, b, pos)" by (cases v)
  from Some have e: "(k, pid, b, pos) \<in> set (placed s)"
    unfolding v by (rule map_of_SomeD)
  have cm: "can_move s k new_pos = Inr True"
  proof (rule ccontr)
    assume "can_move s k new_pos \<noteq> Inr True"
    with can_move_ok[OF ok e, of new_pos] have "can_move s k new_pos = Inr False" by auto
    from move_refused[OF ok _ this] Some assms(2) show False by simp
  qed
  from move_ok[OF ok e cm] assms(2) that[OF e cm] show ?thesis by simp
qed

lemma state_ok_same_key:
  assumes ok: "state_ok s" and "(k, v) \<in> set (placed s)" and "(k, v') \<in> set (placed s)"
  shows "v = v'"
  using assms state_ok_distinct[OF ok] by (metis eq_key_imp_eq_value)

lemma state_ok_remove:
  assumes ok: "state_ok s" and rm: "remove s k = (Inr u, s')"
  shows "state_ok s'"
proof -
  from remove_Inr[OF ok rm] obtain pid b pos where e: "(k, pid, b, pos) \<in> set (placed s)"
    and s': "s' = s\<lparr>placed := dict_pop k (placed s),
            grid := (grid s)\<lparr>cells := (\<lambda>c. if c \<in> set (cells_of b pos) then 0
                                         else cells (grid s) c)\<rparr>\<rparr>"
    by blast
  note en = state_ok_entry[OF ok e]
  have cells': "cells (grid s') c = (if c \<in> set (cells_of b pos) then 0 else cells (grid s) c)" for c
    by (simp add: s')
  have pl': "x \<in> set (placed s') \<longleftrightarrow> x \<in> set (placed s) \<and> fst x \<noteq> k" for x
    by (simp add: s' set_dict_pop)
  have sz: "size_g s' = size_g s" "shape (grid s') = shape (grid s)" "next_id s' = next_id s"
    "valid_placements s' = valid_placements s"
    by (simp_all add: s')
  show ?thesis
  proof (rule state_okI)
    show "0 \<le> size_g s'" "shape (grid s') = size_g s'" "1 \<le> next_id s'"
      using state_ok_shape[OF ok] state_ok_next_id[OF ok] by (simp_all add: sz)
    show "cells (grid s') c = 0" if "\<not> in_grid (size_g s') c" for c
      using that state_ok_outside[OF ok, of c] by (simp add: cells' sz)
    show "distinct (map fst (placed s'))"
      using state_ok_distinct[OF ok] by (simp add: s' distinct_dict_pop)
    show "pid' = k' \<and> 1 \<le> k' \<and> k' < next_id s' \<and> int64_ok k' \<and> wf_brick b'
           \<and> (\<forall>c \<in> set (cells_of b' pos'). in_grid (size_g s') c \<and> cells (grid s') c = k')"
      if "(k', pid', b', pos') \<in> set (placed s')" for k' pid' b' pos'
    proof -
      from that have e': "(k', pid', b', pos') \<in> set (placed s)" and ne: "k' \<noteq> k"
        by (simp_all add: pl')
      note en' = state_ok_entry[OF ok e']
      have "c \<notin> set (cells_of b pos)" if "c \<in> set (cells_of b' pos')" for c
        using en en' that ne by fastforce
      with en' show ?thesis by (auto simp: cells' sz)
    qed
    show "\<exists>pid' b' pos'. (cells (grid s') c, pid', b', pos') \<in> set (placed s') \<and> c \<in> set (cells_of b' pos')"
      if "cells (grid s') c \<noteq> 0" for c
    proof -
      from that have notin: "c \<notin> set (cells_of b pos)" and nz: "cells (grid s) c \<noteq> 0"
        and eq: "cells (grid s') c = cells (grid s) c"
        by (auto simp: cells' split: if_splits)
      from state_ok_cover[OF ok nz] obtain pid' b' pos' where
        e': "(cells (grid s) c, pid', b', pos') \<in> set (placed s)" and c: "c \<in> set (cells_of b' pos')"
        by blast
      have "cells (grid s) c \<noteq> k"
      proof
        assume "cells (grid s) c = k"
        with e' state_ok_same_key[OF ok e] have "(pid', b', pos') = (pid, b, pos)" by metis
        with c notin show False by simp
      qed
      with e' c show ?thesis
        by (intro exI[of _ pid'] exI[of _ b'] exI[of _ pos']) (simp add: eq pl')
    qed
    show "in_grid (size_g s') c" if "(nm, os) \<in> set (valid_placements s')" "c \<in> set os" for nm os c
      using that state_ok_cache[OF ok] by (simp add: sz)
  qed
qed

lemma state_ok_move:
  assumes ok: "state_ok s" and mv: "move s k new_pos = (Inr u, s')"
  shows "state_ok s'"
proof -
  from move_Inr[OF ok mv] obtain pid b pos where e: "(k, pid, b, pos) \<in> set (placed s)"
    and cm: "can_move s k new_pos = Inr True"
    and s': "s' = s\<lparr>grid := (grid s)\<lparr>cells := (\<lambda>c. if c \<in> set (cells_of b new_pos) then k
                                             else if c \<in> set (cells_of b pos) then 0
                                             else cells (grid s) c)\<rparr>,
                placed := dict_set k (k, b, new_pos) (placed s)\<rparr>"
    by blast
  note en = state_ok_entry[OF ok e]
  from cm can_move_ok[OF ok e, of new_pos]
  have new: "\<forall>c \<in> set (cells_of b new_pos).
            in_grid (size_g s) c \<and> (cells (grid s) c = 0 \<or> cells (grid s) c = k)"
    by simp
  have cells': "cells (grid s') c = (if c \<in> set (cells_of b new_pos) then k
       else if c \<in> set (cells_of b pos) then 0 else cells (grid s) c)" for c
    by (simp add: s')
  have pl': "(k', v') \<in> set (placed s') \<longleftrightarrow>
      (k' = k \<and> v' = (k, b, new_pos)) \<or> (k' \<noteq> k \<and> (k', v') \<in> set (placed s))" for k' v'
    by (simp add: s' set_dict_set[OF state_ok_distinct[OF ok]])
  have sz: "size_g s' = size_g s" "shape (grid s') = shape (grid s)" "next_id s' = next_id s"
    "valid_placements s' = valid_placements s"
    by (simp_all add: s')
  show ?thesis
  proof (rule state_okI)
    show "0 \<le> size_g s'" "shape (grid s') = size_g s'" "1 \<le> next_id s'"
      using state_ok_shape[OF ok] state_ok_next_id[OF ok] by (simp_all add: sz)
    show "cells (grid s') c = 0" if "\<not> in_grid (size_g s') c" for c
      using that state_ok_outside[OF ok, of c] new by (auto simp: cells' sz)
    show "distinct (map fst (placed s'))"
      using state_ok_distinct[OF ok] by (simp add: s' distinct_dict_set)
    show "pid' = k' \<and> 1 \<le> k' \<and> k' < next_id s' \<and> int64_ok k' \<and> wf_brick b'
           \<and> (\<forall>c \<in> set (cells_of b' pos'). in_grid (size_g s') c \<and> cells (grid s') c = k')"
      if "(k', pid', b', pos') \<in> set (placed s')" for k' pid' b' pos'
    proof (cases "k' = k")
      case True
      with that have "pid' = k" "b' = b" "pos' = new_pos" by (simp_all add: pl')
      with True en new show ?thesis by (auto simp: cells' sz)
    next
      case False
      with that have e': "(k', pid', b', pos') \<in> set (placed s)" by (simp add: pl')
      note en' = state_ok_entry[OF ok e']
      have "c \<notin> set (cells_of b pos) \<and> c \<notin> set (cells_of b new_pos)"
        if "c \<in> set (cells_of b' pos')" for c
        using en en' that False new by fastforce
      with en' show ?thesis by (auto simp: cells' sz)
    qed
    show "\<exists>pid' b' pos'. (cells (grid s') c, pid', b', pos') \<in> set (placed s') \<and> c \<in> set (cells_of b' pos')"
      if "cells (grid s') c \<noteq> 0" for c
    proof (cases "c \<in> set (cells_of b new_pos)")
      case True
      then show ?thesis
        by (intro exI[of _ k] exI[of _ b] exI[of _ new_pos]) (simp add: cells' pl')
    next
      case False
      with that have notin: "c \<notin> set (cells_of b pos)" and nz: "cells (grid s) c \<noteq> 0"
        and eq: "cells (grid s') c = cells (grid s) c"
        by (auto simp: cells' split: if_splits)
      from state_ok_cover[OF ok nz] obtain pid' b' pos' where
        e': "(cells (grid s) c, pid', b', pos') \<in> set (placed s)" and c: "c \<in> set (cells_of b' pos')"
        by blast
      have "cells (grid s) c \<noteq> k"
      proof
        assume "cells (grid s) c = k"
        with e' state_ok_same_key[OF ok e] have "(pid', b', pos') = (pid, b, pos)" by metis
        with c notin show False by simp
      qed
      with e' c show ?thesis
        by (intro exI[of _ pid'] exI[of _ b'] exI[of _ pos']) (simp add: eq pl')
    qed
    show "in_grid (size_g s') c" if "(nm, os) \<in> set (valid_placements s')" "c \<in> set os" for nm os c
      using that state_ok_cache[OF ok] by (simp add: sz)
  qed
qed

lemma state_ok_clear:
  assumes ok: "state_ok s"
  shows "state_ok (clear s)"
proof (rule state_okI)
  have cells': "cells (grid (clear s)) c = 0" for c
    using state_ok_outside[OF ok, of c] state_ok_shape[OF ok]
    by (simp add: clear_def np_fill_def)
  show "0 \<le> size_g (clear s)" "shape (grid (clear s)) = size_g (clear s)" "1 \<le> next_id (clear s)"
    "distinct (map fst (placed (clear s)))"
    using state_ok_shape[OF ok] by (simp_all add: clear_def np_fill_def)
  show "cells (grid (clear s)) c = 0" for c by (rule cells')
  show "pid = k \<and> 1 \<le> k \<and> k < next_id (clear s) \<and> int64_ok k \<and> wf_brick b
           \<and> (\<forall>c \<in> set (cells_of b pos). in_grid (size_g (clear s)) c \<and> cells (grid (clear s)) c = k)"
    if "(k, pid, b, pos) \<in> set (placed (clear s))" for k pid b pos
    using that by (simp add: clear_def)
  show "\<exists>pid b pos. (cells (grid (clear s)) c, pid, b, pos) \<in> set (placed (clear s))
      \<and> c \<in> set (cells_of b pos)" if "cells (grid (clear s)) c \<noteq> 0" for c
    using that cells' by simp
  show "in_grid (size_g (clear s)) c"
    if "(nm, os) \<in> set (valid_placements (clear s))" "c \<in> set os" for nm os c
    using that state_ok_cache[OF ok] by (simp add: clear_def)
qed

lemma reachable_state_ok: "reachable s \<Longrightarrow> state_ok s"
proof (induction rule: reachable.induct)
  case (reach_init n s)
  then show ?case by (rule state_ok_init)
next
  case (reach_place s b pos pid s')
  then show ?case by (auto intro: state_ok_place)
next
  case (reach_remove s pid s')
  then show ?case by (auto intro: state_ok_remove)
next
  case (reach_move s pid pos s')
  then show ?case by (auto intro: state_ok_move)
next
  case (reach_clear s)
  then show ?case by (auto intro: state_ok_clear)
qed

lemma state_ok_grid_invariant:
  assumes ok: "state_ok s"
  shows "grid_invariant s"
  unfolding grid_invariant_def
proof (intro conjI allI impI ballI)
  fix c P assume P: "P \<noteq> (0::int)"
  show "(in_grid (size_g s) c \<and> cells (grid s) c = P) =
        (\<exists>pid b pos. map_of (placed s) P = Some (pid, b, pos) \<and> c \<in> set (cells_of b pos))"
  proof
    assume "in_grid (size_g s) c \<and> cells (grid s) c = P"
    with P have "cells (grid s) c \<noteq> 0" and eq: "cells (grid s) c = P" by simp_all
    from state_ok_cover[OF ok this(1)] eq obtain pid b pos where
      "(P, pid, b, pos) \<in> set (placed s)" "c \<in> set (cells_of b pos)" by auto
    then show "\<exists>pid b pos. map_of (placed s) P = Some (pid, b, pos) \<and> c \<in> set (cells_of b pos)"
      using state_ok_distinct[OF ok] by auto
  next
    assume "\<exists>pid b pos. map_of (placed s) P = Some (pid, b, pos) \<and> c \<in> set (cells_of b pos)"
    then obtain pid b pos where "(P, pid, b, pos) \<in> set (placed s)" "c \<in> set (cells_of b pos)"
      by (auto dest: map_of_SomeD)
    with state_ok_entry[OF ok this(1)] show "in_grid (size_g s) c \<and> cells (grid s) c = P"
      by simp
  qed
next
  fix P Q :: int and pidP bP posP pidQ bQ posQ
  assume ne: "P \<noteq> Q" and "map_of (placed s) P = Some (pidP, bP, posP)"
    and "map_of (placed s) Q = Some (pidQ, bQ, posQ)"
  then have eP: "(P, pidP, bP, posP) \<in> set (placed s)" and eQ: "(Q, pidQ, bQ, posQ) \<in> set (placed s)"
    by (auto dest: map_of_SomeD)
  show "set (cells_of bP posP) \<inter> set (cells_of bQ posQ) = {}"
    using state_ok_entry[OF ok eP] state_ok_entry[OF ok eQ] ne by fastforce
next
  fix P pid b pos c
  assume "map_of (placed s) P = Some (pid, b, pos)" and c: "c \<in> set (cells_of b pos)"
  then have "(P, pid, b, pos) \<in> set (placed s)" by (auto dest: map_of_SomeD)
  with state_ok_entry[OF ok this] c show "in_grid (size_g s) c" by simp
next
  fix P v
  assume "map_of (placed s) P = Some v"
  then have "(P, v) \<in> set (placed s)" by (rule map_of_SomeD)
  then show "0 < P" using state_ok_entry[OF ok, of P "fst v" "fst (snd v)" "snd (snd v)"] by simp
qed

section \<open>Concrete reachable states\<close>

lemma CubeGrid_init_fresh6: "CubeGrid_init 6 = Inr fresh6"
  using CubeGrid_init_succeeds[of 6] by (auto simp: fresh6_def)

lemma CubeGrid_init_fresh3: "CubeGrid_init 3 = Inr fresh3"
  using CubeGrid_init_succeeds[of 3] by (auto simp: fresh3_def)

lemma reachable_fresh6: "reachable fresh6"
  using CubeGrid_init_fresh6 by (rule reach_init)

lemma fresh6_fields:
  "size_g fresh6 = 6" "grid fresh6 = \<lparr>shape = 6, cells = (\<lambda>c. 0)\<rparr>"
  "next_id fresh6 = 1" "placed fresh6 = []"
  using CubeGrid_init_result[OF CubeGrid_init_fresh6] by simp_all

lemma wf_brick_O: "wf_brick brick_O"
  by (simp add: wf_brick_def brick_O_def)

lemma cells_of_O_origin: "cells_of brick_O (0, 0, 0) = [(0, 0, 0), (1, 0, 0), (0, 1, 0), (1, 1, 0)]"
  by (simp add: cells_of_def brick_O_def)

lemma place_fresh6: "place fresh6 brick_O (0, 0, 0) = (Inr 1, demo1)"
proof -
  have "can_place fresh6 brick_O (0, 0, 0) = Inr True"
    by (simp add: can_place_ok fresh6_fields cells_of_O_origin in_grid_def)
  from place_succeeds[OF this] show ?thesis
    by (auto simp: fresh6_fields int64_ok_def demo1_def)
qed

lemma reachable_demo1: "reachable demo1"
  using reachable_fresh6 wf_brick_O place_fresh6 by (rule reach_place)

lemma demo1_fields:
  "size_g demo1 = 6" "next_id demo1 = 2" "placed demo1 = [(1, 1, brick_O, (0, 0, 0))]"
  "cells (grid demo1) = (\<lambda>c. if c \<in> set (cells_of brick_O (0, 0, 0)) then 1 else 0)"
proof -
  note eq = place_Inr(3)[OF place_fresh6]
  show "size_g demo1 = 6" by (subst eq) (simp add: fresh6_fields)
  show "next_id demo1 = 2" by (subst eq) (simp add: fresh6_fields)
  show "placed demo1 = [(1, 1, brick_O, (0, 0, 0))]"
    by (subst eq) (simp add: fresh6_fields dict_set_def)
  show "cells (grid demo1) = (\<lambda>c. if c \<in> set (cells_of brick_O (0, 0, 0)) then 1 else 0)"
    by (subst eq) (simp add: fresh6_fields cong: if_cong)
qed

section \<open>The grid invariant holds in every reachable state\<close>

text \<open>
  Claim C9. Every state reachable from a freshly constructed grid by successful place,
  remove, move and clear calls satisfies the grid invariant: a cell holds the id \<open>P\<close> exactly
  when \<open>P\<close> is registered and the cell is the registered position plus a cube offset of the
  registered brick, different placements cover disjoint cells, and every placed cube lies
  within \<open>[0, N)\<close> on each axis.
\<close>

theorem reachable_grid_invariant: "reachable s \<Longrightarrow> grid_invariant s"
  by (intro state_ok_grid_invariant reachable_state_ok)

theorem reachable_grid_invariant_witness: "grid_invariant demo1"
  using reachable_grid_invariant[OF reachable_demo1] .

section \<open>Placing and removing\<close>

text \<open>
  Claim C7. In every grid state, a \<^verbatim>\<open>place\<close> that \<^verbatim>\<open>can_place\<close> admits returns
  \<open>next_id\<close> (provided that id still fits a cell of the array); removing the returned id
  afterwards restores the occupancy array cell for cell, and the freed id is not used again:
  the next \<^verbatim>\<open>place\<close> returns a larger id. \<^verbatim>\<open>remove\<close> never changes \<open>next_id\<close>, and
  the ids that successive \<^verbatim>\<open>place\<close> calls return, with \<^verbatim>\<open>remove\<close> and \<^verbatim>\<open>move\<close>
  calls in between, strictly increase.
\<close>

theorem place_remove_restores_ids_increase:
  "(can_place s b pos = Inr True \<and> int64_ok (next_id s) \<longrightarrow>
      fst (place s b pos) = Inr (next_id s))
   \<and> (place s b pos = (Inr pid, s1) \<longrightarrow>
        (\<exists>s2. remove s1 pid = (Inr (), s2) \<and> grid s2 = grid s
           \<and> (\<forall>b' pos' pid' s3. place s2 b' pos' = (Inr pid', s3) \<longrightarrow> pid < pid')))
   \<and> next_id (snd (remove s k)) = next_id s
   \<and> sorted_wrt (<) (fst (run_ops s ops))"
proof (intro conjI impI)
  assume "can_place s b pos = Inr True \<and> int64_ok (next_id s)"
  then show "fst (place s b pos) = Inr (next_id s)"
    using place_succeeds[of s b pos] by auto
next
  assume pl: "place s b pos = (Inr pid, s1)"
  from place_remove_grid[OF pl] obtain s2 where
    s2: "remove s1 pid = (Inr (), s2)" "grid s2 = grid s" "next_id s2 = pid + 1" by blast
  have "pid < pid'" if "place s2 b' pos' = (Inr pid', s3)" for b' pos' pid' s3
    using place_Inr(1)[OF that] s2(3) by simp
  with s2 show "\<exists>s2. remove s1 pid = (Inr (), s2) \<and> grid s2 = grid s
           \<and> (\<forall>b' pos' pid' s3. place s2 b' pos' = (Inr pid', s3) \<longrightarrow> pid < pid')"
    by blast
next
  show "next_id (snd (remove s k)) = next_id s" by (rule remove_next_id)
  show "sorted_wrt (<) (fst (run_ops s ops))" using run_ops_ids[of s ops] by simp
qed

theorem place_remove_restores_ids_increase_witness:
  "can_place fresh6 brick_O (0, 0, 0) = Inr True \<and> int64_ok (next_id fresh6)
   \<and> place fresh6 brick_O (0, 0, 0) = (Inr 1, demo1)
   \<and> (\<exists>s2. remove demo1 1 = (Inr (), s2) \<and> grid s2 = grid fresh6
         \<and> fst (place s2 brick_O (0, 0, 0)) = Inr 2)
   \<and> fst (run_ops fresh6 [Place brick_O (0, 0, 0), Remove 1, Place brick_O (0, 0, 0)]) = [1, 2]"
proof -
  have cp: "can_place fresh6 brick_O (0, 0, 0) = Inr True"
    by (simp add: can_place_ok fresh6_fields cells_of_O_origin in_grid_def)
  have i64: "int64_ok (next_id fresh6)" by (simp add: fresh6_fields int64_ok_def)
  note inst = place_remove_restores_ids_increase[of fresh6 brick_O "(0, 0, 0)" 1 demo1]
  from inst place_fresh6 obtain s2 where
    s2: "remove demo1 1 = (Inr (), s2)" "grid s2 = grid fresh6" by blast
  have n2: "next_id s2 = 2" using remove_next_id[of demo1 1] s2(1) by (simp add: demo1_fields)
  have sz: "size_g s2 = 6" using s2(1) place_fresh6
    by (auto simp: remove_def demo1_fields fresh6_fields Let_def split: prod.splits)
  have "can_place s2 brick_O (0, 0, 0) = Inr True"
    using cp can_place_cong[of s2 fresh6] s2(2) sz by (simp add: fresh6_fields)
  with place_remove_restores_ids_increase[of s2 brick_O "(0, 0, 0)"] n2
  have p2: "fst (place s2 brick_O (0, 0, 0)) = Inr 2" by (simp add: int64_ok_def)
  have "fst (run_ops fresh6 [Place brick_O (0, 0, 0), Remove 1, Place brick_O (0, 0, 0)]) = [1, 2]"
    using place_fresh6 s2(1) p2
    by (cases "place s2 brick_O (0, 0, 0)") (auto split: sum.splits)
  with cp i64 place_fresh6 s2 p2 show ?thesis by blast
qed

section \<open>Moving a placement\<close>

lemma assign_cells_shape: "shape (snd (assign_cells g pos cs v)) = shape g"
proof (induction cs arbitrary: g)
  case Nil
  then show ?case by (cases pos) simp
next
  case (Cons c cs)
  obtain px py pz where pos: "pos = (px, py, pz)" by (cases pos) auto
  obtain cx cy cz where c: "c = (cx, cy, cz)" by (cases c) auto
  show ?case
  proof (cases "np_set g (px + cx, py + cy, pz + cz) v")
    case (Inl e)
    then show ?thesis by (simp add: pos c)
  next
    case (Inr g')
    then have "shape g' = shape g" by (auto simp: np_set_def split: sum.splits if_splits)
    with Inr Cons.IH[of g'] show ?thesis by (simp add: pos c)
  qed
qed

lemma assign_cells_Inr_valid:
  "assign_cells g pos cs v = (Inr u, g') \<Longrightarrow>
   (\<forall>c \<in> set (map (shift pos) cs). \<exists>d. np_coord (shape g) c = Inr d) \<and> (cs \<noteq> [] \<longrightarrow> int64_ok v)"
proof (induction cs arbitrary: g)
  case Nil
  then show ?case by simp
next
  case (Cons c cs)
  obtain px py pz where pos: "pos = (px, py, pz)" by (cases pos) auto
  obtain cx cy cz where c: "c = (cx, cy, cz)" by (cases c) auto
  from Cons.prems obtain g1 where g1: "np_set g (px + cx, py + cy, pz + cz) v = Inr g1"
    and rest: "assign_cells g1 pos cs v = (Inr u, g')"
    by (cases "np_set g (px + cx, py + cy, pz + cz) v") (auto simp: pos c)
  from g1 have here: "\<exists>d. np_coord (shape g) (px + cx, py + cy, pz + cz) = Inr d" "int64_ok v"
    and sh: "shape g1 = shape g"
    by (auto simp: np_set_def split: sum.splits if_splits)
  from Cons.IH[OF rest] sh here show ?case by (simp add: pos c)
qed

lemma assign_cells_valid:
  "\<forall>c \<in> set (map (shift pos) cs). \<exists>d. np_coord (shape g) c = Inr d \<Longrightarrow>
   cs \<noteq> [] \<longrightarrow> int64_ok v \<Longrightarrow> \<exists>g'. assign_cells g pos cs v = (Inr (), g')"
proof (induction cs arbitrary: g)
  case Nil
  then show ?case by (cases pos) simp
next
  case (Cons c cs)
  obtain px py pz where pos: "pos = (px, py, pz)" by (cases pos) auto
  obtain cx cy cz where c: "c = (cx, cy, cz)" by (cases c) auto
  from Cons.prems obtain d where d: "np_coord (shape g) (px + cx, py + cy, pz + cz) = Inr d"
    and i64: "int64_ok v"
    by (auto simp: pos c)
  let ?g1 = "g\<lparr>cells := (cells g)(d := v)\<rparr>"
  have g1: "np_set g (px + cx, py + cy, pz + cz) v = Inr ?g1"
    using d i64 by (simp add: np_set_def)
  have "\<exists>g'. assign_cells ?g1 pos cs v = (Inr (), g')"
    using Cons.prems i64 by (intro Cons.IH) auto
  with g1 show ?case by (simp add: pos c)
qed

lemma can_move_loop_True:
  "can_move_loop n g k pos cs = Inr True \<Longrightarrow>
   \<forall>c \<in> set (map (shift pos) cs). \<exists>d. np_coord (shape g) c = Inr d"
proof (induction cs)
  case Nil
  then show ?case by simp
next
  case (Cons c cs)
  obtain px py pz where pos: "pos = (px, py, pz)" by (cases pos) auto
  obtain cx cy cz where c: "c = (cx, cy, cz)" by (cases c) auto
  let ?d = "(px + cx, py + cy, pz + cz)"
  from Cons.prems have ing: "in_grid n ?d"
    by (auto simp: pos c in_grid_def Let_def split: if_splits)
  with Cons.prems have "(case np_get g ?d of Inl e \<Rightarrow> Inl e
      | Inr occ \<Rightarrow> if occ \<noteq> 0 \<and> occ \<noteq> k then Inr False
                   else can_move_loop n g k (px, py, pz) cs) = Inr True"
    by (simp add: pos c in_grid_def Let_def)
  then obtain occ where occ: "np_get g ?d = Inr occ"
    and rest: "can_move_loop n g k pos cs = Inr True"
    unfolding pos by (cases "np_get g ?d") (auto split: if_splits)
  from occ have "\<exists>d. np_coord (shape g) ?d = Inr d"
    by (auto simp: np_get_def split: sum.splits)
  with Cons.IH[OF rest] show ?case by (simp add: pos c)
qed

lemma entries_validI:
  assumes "\<And>k pid b pos. (k, pid, b, pos) \<in> set (placed s) \<Longrightarrow>
      (cubes b \<noteq> [] \<longrightarrow> int64_ok pid)
      \<and> (\<forall>c \<in> set (cells_of b pos). \<exists>d. np_coord (shape (grid s)) c = Inr d)"
  shows "entries_valid s"
  unfolding entries_valid_def
proof
  fix x assume x: "x \<in> set (placed s)"
  obtain k pid b pos where eq: "x = (k, pid, b, pos)" by (metis prod_cases4)
  from assms[OF x[unfolded eq]]
  show "case x of (k, pid, b, pos) \<Rightarrow>
        (cubes b \<noteq> [] \<longrightarrow> int64_ok pid)
        \<and> (\<forall>c \<in> set (cells_of b pos). \<exists>d. np_coord (shape (grid s)) c = Inr d)"
    unfolding eq by simp
qed

lemma entries_validD:
  "entries_valid s \<Longrightarrow> (k, pid, b, pos) \<in> set (placed s) \<Longrightarrow>
   (cubes b \<noteq> [] \<longrightarrow> int64_ok pid)
   \<and> (\<forall>c \<in> set (cells_of b pos). \<exists>d. np_coord (shape (grid s)) c = Inr d)"
  unfolding entries_valid_def by fast

lemma entries_valid_frame:
  assumes "entries_valid s" and "shape (grid s') = shape (grid s)"
    and "set (placed s') \<subseteq> set (placed s)"
  shows "entries_valid s'"
proof (rule entries_validI)
  fix k pid b pos assume "(k, pid, b, pos) \<in> set (placed s')"
  with assms(3) have "(k, pid, b, pos) \<in> set (placed s)" by blast
  from entries_validD[OF assms(1) this] assms(2)
  show "(cubes b \<noteq> [] \<longrightarrow> int64_ok pid)
      \<and> (\<forall>c \<in> set (cells_of b pos). \<exists>d. np_coord (shape (grid s')) c = Inr d)"
    by simp
qed

lemma entries_valid_add:
  assumes "entries_valid s" and "shape (grid s') = shape (grid s)"
    and "set (placed s') \<subseteq> insert (k, pid, b, pos) (set (placed s))"
    and "cubes b \<noteq> [] \<longrightarrow> int64_ok pid"
    and "\<forall>c \<in> set (cells_of b pos). \<exists>d. np_coord (shape (grid s)) c = Inr d"
  shows "entries_valid s'"
proof (rule entries_validI)
  fix k' pid' b' pos' assume m: "(k', pid', b', pos') \<in> set (placed s')"
  show "(cubes b' \<noteq> [] \<longrightarrow> int64_ok pid')
      \<and> (\<forall>c \<in> set (cells_of b' pos'). \<exists>d. np_coord (shape (grid s')) c = Inr d)"
  proof (cases "(k', pid', b', pos') = (k, pid, b, pos)")
    case True
    with assms(2,4,5) show ?thesis by simp
  next
    case False
    with m assms(3) have "(k', pid', b', pos') \<in> set (placed s)" by blast
    from entries_validD[OF assms(1) this] assms(2) show ?thesis by simp
  qed
qed

lemma set_dict_set_subset: "set (dict_set k v d) \<subseteq> insert (k, v) (set d)"
  unfolding dict_set_def by (induction d) auto

lemma entries_valid_place:
  assumes ev: "entries_valid s"
  shows "entries_valid (snd (place s b pos))"
proof (cases "can_place s b pos")
  case (Inl e)
  with ev show ?thesis by (simp add: place_def)
next
  case (Inr ok)
  show ?thesis
  proof (cases ok)
    case False
    with Inr ev show ?thesis by (simp add: place_def)
  next
    case True
    obtain r g where asg: "assign_cells (grid s) pos (cubes b) (next_id s) = (r, g)"
      by (cases "assign_cells (grid s) pos (cubes b) (next_id s)")
    have sh: "shape g = shape (grid s)"
      using assign_cells_shape[of "grid s" pos "cubes b" "next_id s"] asg by simp
    show ?thesis
    proof (cases r)
      case (Inl e)
      have "entries_valid (s\<lparr>grid := g\<rparr>)"
        by (rule entries_valid_frame[OF ev]) (simp_all add: sh)
      with Inr True asg Inl show ?thesis by (simp add: place_def Let_def)
    next
      case r: (Inr u)
      from assign_cells_Inr_valid[OF asg[unfolded r]]
      have v: "\<forall>c \<in> set (cells_of b pos). \<exists>d. np_coord (shape (grid s)) c = Inr d"
        "cubes b \<noteq> [] \<longrightarrow> int64_ok (next_id s)"
        by (simp_all add: cells_of_def)
      let ?s' = "s\<lparr>grid := g, placed := dict_set (next_id s) (next_id s, b, pos) (placed s),
                    next_id := next_id s + 1\<rparr>"
      have "entries_valid ?s'"
        by (rule entries_valid_add[where k = "next_id s", OF ev _ _ v(2) v(1)])
           (simp_all add: sh set_dict_set_subset)
      with Inr True asg r show ?thesis by (simp add: place_def Let_def)
    qed
  qed
qed

lemma entries_valid_remove:
  assumes ev: "entries_valid s"
  shows "entries_valid (snd (remove s k))"
proof (cases "map_of (placed s) k")
  case None
  with ev show ?thesis by (simp add: remove_def)
next
  case (Some v)
  obtain pid b pos where v: "v = (pid, b, pos)" by (cases v)
  obtain r g where asg: "assign_cells (grid s) pos (cubes b) 0 = (r, g)"
    by (cases "assign_cells (grid s) pos (cubes b) 0")
  have sh: "shape g = shape (grid s)"
    using assign_cells_shape[of "grid s" pos "cubes b" 0] asg by simp
  have "entries_valid (s\<lparr>placed := dict_pop k (placed s), grid := g\<rparr>)"
    by (rule entries_valid_frame[OF ev]) (auto simp: sh set_dict_pop)
  with Some v asg show ?thesis by (simp add: remove_def Let_def)
qed

lemma move_cases:
  assumes ev: "entries_valid s"
  shows "(\<exists>e. move s k p = (Inl e, s))
     \<or> (\<exists>pid b old g. (k, pid, b, old) \<in> set (placed s)
           \<and> shape g = shape (grid s)
           \<and> (\<forall>c \<in> set (cells_of b p). \<exists>d. np_coord (shape (grid s)) c = Inr d)
           \<and> move s k p = (Inr (), s\<lparr>grid := g, placed := dict_set k (pid, b, p) (placed s)\<rparr>))"
proof (cases "map_of (placed s) k")
  case None
  then show ?thesis by (simp add: move_def)
next
  case (Some v)
  obtain pid b old where v: "v = (pid, b, old)" by (cases v)
  from Some have en: "(k, pid, b, old) \<in> set (placed s)" unfolding v by (rule map_of_SomeD)
  note e = entries_validD[OF ev en]
  show ?thesis
  proof (cases "can_move s k p")
    case (Inl err)
    with Some v show ?thesis by (simp add: move_def)
  next
    case (Inr ok)
    show ?thesis
    proof (cases ok)
      case False
      with Inr Some v show ?thesis by (simp add: move_def)
    next
      case True
      with Inr Some v have "can_move_loop (size_g s) (grid s) k p (cubes b) = Inr True"
        by (simp add: can_move_def)
      from can_move_loop_True[OF this]
      have new: "\<forall>c \<in> set (cells_of b p). \<exists>d. np_coord (shape (grid s)) c = Inr d"
        by (simp add: cells_of_def)
      from e have "\<forall>c \<in> set (map (shift old) (cubes b)). \<exists>d. np_coord (shape (grid s)) c = Inr d"
        by (simp add: cells_of_def)
      from assign_cells_valid[OF this] obtain g1 where
        a1: "assign_cells (grid s) old (cubes b) 0 = (Inr (), g1)"
        using int64_ok_0 by blast
      have sh1: "shape g1 = shape (grid s)"
        using assign_cells_shape[of "grid s" old "cubes b" 0] a1 by simp
      from new sh1 have "\<forall>c \<in> set (map (shift p) (cubes b)). \<exists>d. np_coord (shape g1) c = Inr d"
        by (simp add: cells_of_def)
      from assign_cells_valid[OF this, of pid] e obtain g2 where
        a2: "assign_cells g1 p (cubes b) pid = (Inr (), g2)"
        by blast
      have sh2: "shape g2 = shape (grid s)"
        using assign_cells_shape[of g1 p "cubes b" pid] a2 sh1 by simp
      have "move s k p = (Inr (), s\<lparr>grid := g2, placed := dict_set k (pid, b, p) (placed s)\<rparr>)"
        using Some v Inr True a1 a2 by (simp add: move_def)
      with en sh2 new show ?thesis by blast
    qed
  qed
qed

lemma entries_valid_move:
  assumes ev: "entries_valid s"
  shows "entries_valid (snd (move s k p))"
proof -
  from move_cases[OF ev, of k p] show ?thesis
  proof (elim disjE exE conjE)
    fix e assume "move s k p = (Inl e, s)"
    with ev show ?thesis by simp
  next
    fix pid b old g
    assume en: "(k, pid, b, old) \<in> set (placed s)" and sh: "shape g = shape (grid s)"
      and new: "\<forall>c \<in> set (cells_of b p). \<exists>d. np_coord (shape (grid s)) c = Inr d"
      and mv: "move s k p = (Inr (), s\<lparr>grid := g, placed := dict_set k (pid, b, p) (placed s)\<rparr>)"
    from entries_validD[OF ev en] have i64: "cubes b \<noteq> [] \<longrightarrow> int64_ok pid" by simp
    have "entries_valid (s\<lparr>grid := g, placed := dict_set k (pid, b, p) (placed s)\<rparr>)"
      by (rule entries_valid_add[where k = k, OF ev _ _ i64 new])
         (simp_all add: sh set_dict_set_subset)
    with mv show ?thesis by simp
  qed
qed

lemma entries_valid_clear: "entries_valid s \<Longrightarrow> entries_valid (clear s)"
  by (simp add: entries_valid_def clear_def)

lemma entries_valid_load_items:
  "entries_valid s \<Longrightarrow> entries_valid (snd (load_items s m its))"
proof (induction its arbitrary: s m)
  case Nil
  then show ?case by simp
next
  case (Cons it its)
  let ?nm = "case item_name it of None \<Rightarrow> [] | Some n \<Rightarrow> n"
  show ?case
  proof (cases "Brick_init (item_cubes it) ?nm")
    case (Inl e)
    with Cons.prems show ?thesis by (simp add: Let_def)
  next
    case (Inr brick)
    obtain r g where asg: "assign_cells (grid s) (item_pos it) (cubes brick) (item_pid it) = (r, g)"
      by (cases "assign_cells (grid s) (item_pos it) (cubes brick) (item_pid it)")
    have sh: "shape g = shape (grid s)"
      using assign_cells_shape[of "grid s" "item_pos it" "cubes brick" "item_pid it"] asg by simp
    show ?thesis
    proof (cases r)
      case (Inl e)
      have "entries_valid (s\<lparr>grid := g\<rparr>)"
        by (rule entries_valid_frame[OF Cons.prems]) (simp_all add: sh)
      with Inr asg Inl show ?thesis by (simp add: Let_def)
    next
      case r: (Inr u)
      from assign_cells_Inr_valid[OF asg[unfolded r]]
      have v: "\<forall>c \<in> set (cells_of brick (item_pos it)). \<exists>d. np_coord (shape (grid s)) c = Inr d"
        "cubes brick \<noteq> [] \<longrightarrow> int64_ok (item_pid it)"
        by (simp_all add: cells_of_def)
      let ?s' = "s\<lparr>grid := g,
          placed := dict_set (item_pid it) (item_pid it, brick, item_pos it) (placed s)\<rparr>"
      have "entries_valid ?s'"
        by (rule entries_valid_add[where k = "item_pid it", OF Cons.prems _ _ v(2) v(1)])
           (simp_all add: sh set_dict_set_subset)
      from Cons.IH[OF this] Inr asg r show ?thesis by (simp add: Let_def)
    qed
  qed
qed

lemma entries_valid_load:
  assumes ev: "entries_valid s"
  shows "entries_valid (snd (load_from_file s data))"
proof -
  let ?n = "case snap_size data of None \<Rightarrow> 6 | Some k \<Rightarrow> k"
  let ?its = "case snap_placed data of None \<Rightarrow> [] | Some its \<Rightarrow> its"
  show ?thesis
  proof (cases "np_zeros ?n")
    case (Inl e)
    have "entries_valid (s\<lparr>size_g := ?n\<rparr>)"
      by (rule entries_valid_frame[OF ev]) simp_all
    with Inl show ?thesis by (simp add: load_from_file_def Let_def)
  next
    case (Inr g)
    let ?s1 = "s\<lparr>size_g := ?n, grid := g, placed := []\<rparr>"
    have "entries_valid ?s1" by (simp add: entries_valid_def)
    from entries_valid_load_items[OF this, of 0 ?its]
    obtain r s2 where li: "load_items ?s1 0 ?its = (r, s2)" and ev2: "entries_valid s2"
      by (cases "load_items ?s1 0 ?its") auto
    show ?thesis
    proof (cases r)
      case (Inl e)
      with Inr li ev2 show ?thesis by (simp add: load_from_file_def Let_def)
    next
      case r: (Inr m)
      have "entries_valid (s2\<lparr>next_id := (case snap_next_id data of None \<Rightarrow> m + 1 | Some k \<Rightarrow> k)\<rparr>)"
        by (rule entries_valid_frame[OF ev2]) simp_all
      with Inr li r show ?thesis by (simp add: load_from_file_def Let_def)
    qed
  qed
qed

lemma engine_state_entries_valid: "engine_state s \<Longrightarrow> entries_valid s"
proof (induction rule: engine_state.induct)
  case (es_init n s)
  then show ?case using CubeGrid_init_result(5)[OF es_init] by (simp add: entries_valid_def)
next
  case (es_place s b pos)
  then show ?case by (simp add: entries_valid_place)
next
  case (es_remove s pid)
  then show ?case by (simp add: entries_valid_remove)
next
  case (es_move s pid pos)
  then show ?case by (simp add: entries_valid_move)
next
  case (es_clear s)
  then show ?case by (simp add: entries_valid_clear)
next
  case (es_load s data)
  then show ?case by (simp add: entries_valid_load)
qed

lemma engine_move_failure_unchanged:
  assumes "engine_state s" and "move s k p = (Inl e, s')"
  shows "s' = s"
  using move_cases[OF engine_state_entries_valid[OF assms(1)], of k p] assms(2) by auto

lemma reachable_engine_state: "reachable s \<Longrightarrow> engine_state s"
proof (induction rule: reachable.induct)
  case (reach_init n s)
  then show ?case by (rule es_init)
next
  case (reach_place s b pos pid s')
  from es_place[OF reach_place.IH, of b pos] reach_place.hyps(3) show ?case by simp
next
  case (reach_remove s pid s')
  from es_remove[OF reach_remove.IH, of pid] reach_remove.hyps(2) show ?case by simp
next
  case (reach_move s pid pos s')
  from es_move[OF reach_move.IH, of pid pos] reach_move.hyps(2) show ?case by simp
next
  case (reach_clear s)
  then show ?case by (auto intro: es_clear)
qed

text \<open>
  Claim C5. \<^verbatim>\<open>move\<close> raises KeyError for an id that is not registered and ValueError
  when \<^verbatim>\<open>can_move\<close> is false, and the state is then what it was before the call. In
  every state of an engine object, whenever \<^verbatim>\<open>move\<close> raises, the whole state (occupancy
  array and registry included) is what it was before the call. In a reachable state, when
  \<^verbatim>\<open>can_move\<close> is true the call succeeds: the new cells hold the id, the old cells that
  are not new cells are empty, every other cell is unchanged, and the registry differs only
  in the position of that entry.
\<close>

theorem move_all_or_nothing:
  "(map_of (placed s) k = None \<longrightarrow> move s k p = (Inl KeyError, s))
   \<and> (map_of (placed s) k \<noteq> None \<and> can_move s k p = Inr False \<longrightarrow>
        move s k p = (Inl ValueError, s))
   \<and> (engine_state s \<longrightarrow> (\<forall>e s'. move s k p = (Inl e, s') \<longrightarrow> s' = s))
   \<and> (reachable s \<longrightarrow>
        (\<forall>pid b old. map_of (placed s) k = Some (pid, b, old) \<and> can_move s k p = Inr True \<longrightarrow>
          (\<exists>s'. move s k p = (Inr (), s')
             \<and> cells (grid s') = (\<lambda>c. if c \<in> set (cells_of b p) then k
                                       else if c \<in> set (cells_of b old) then 0
                                       else cells (grid s) c)
             \<and> map_of (placed s') = (map_of (placed s))(k \<mapsto> (k, b, p))
             \<and> map fst (placed s') = map fst (placed s))))"
proof -
  have 1: "map_of (placed s) k = None \<longrightarrow> move s k p = (Inl KeyError, s)"
    by (simp add: move_unknown)
  have 2: "map_of (placed s) k \<noteq> None \<and> can_move s k p = Inr False \<longrightarrow>
        move s k p = (Inl ValueError, s)"
    by (auto simp: move_def)
  have 3: "engine_state s \<longrightarrow> (\<forall>e s'. move s k p = (Inl e, s') \<longrightarrow> s' = s)"
    using engine_move_failure_unchanged by blast
  have 4: "\<exists>s'. move s k p = (Inr (), s')
           \<and> cells (grid s') = (\<lambda>c. if c \<in> set (cells_of b p) then k
                                     else if c \<in> set (cells_of b old) then 0
                                     else cells (grid s) c)
           \<and> map_of (placed s') = (map_of (placed s))(k \<mapsto> (k, b, p))
           \<and> map fst (placed s') = map fst (placed s)"
    if r: "reachable s"
      and that: "map_of (placed s) k = Some (pid, b, old) \<and> can_move s k p = Inr True"
    for pid b old
  proof -
    note ok = reachable_state_ok[OF r]
    from that have en: "(k, pid, b, old) \<in> set (placed s)" and cm: "can_move s k p = Inr True"
      by (auto dest: map_of_SomeD)
    have key: "k \<in> fst ` set (placed s)" using en by force
    from move_ok[OF ok en cm] show ?thesis
      by (simp add: map_of_dict_set dict_set_map_fst[OF key])
  qed
  from 1 2 3 4 show ?thesis by blast
qed

theorem move_all_or_nothing_witness:
  "move demo1 7 (0, 0, 1) = (Inl KeyError, demo1)
   \<and> move demo1 1 (5, 5, 5) = (Inl ValueError, demo1)
   \<and> snd (move demo1 1 (5, 5, 5)) = demo1
   \<and> (\<exists>s'. move demo1 1 (1, 0, 0) = (Inr (), s')
         \<and> cells (grid s') (0, 0, 0) = 0 \<and> cells (grid s') (1, 0, 0) = 1
         \<and> cells (grid s') (2, 1, 0) = 1
         \<and> map_of (placed s') 1 = Some (1, brick_O, (1, 0, 0)))"
proof -
  note ok = reachable_state_ok[OF reachable_demo1]
  note es = reachable_engine_state[OF reachable_demo1]
  have en: "(1, 1, brick_O, (0, 0, 0)) \<in> set (placed demo1)" by (simp add: demo1_fields)
  have look: "map_of (placed demo1) 1 = Some (1, brick_O, (0, 0, 0))"
    "map_of (placed demo1) 7 = None" by (simp_all add: demo1_fields)
  have cm1: "can_move demo1 1 (5, 5, 5) = Inr False"
    by (simp add: can_move_ok[OF ok en] demo1_fields cells_of_def brick_O_def in_grid_def)
  have cm2: "can_move demo1 1 (1, 0, 0) = Inr True"
    by (simp add: can_move_ok[OF ok en] demo1_fields cells_of_def brick_O_def in_grid_def)
  note inst = move_all_or_nothing[of demo1]
  from inst[of 7 "(0, 0, 1)"] look have a: "move demo1 7 (0, 0, 1) = (Inl KeyError, demo1)"
    by blast
  from inst[of 1 "(5, 5, 5)"] look cm1 have b: "move demo1 1 (5, 5, 5) = (Inl ValueError, demo1)"
    by simp
  from inst[of 1 "(5, 5, 5)"] es
  have "\<forall>e s'. move demo1 1 (5, 5, 5) = (Inl e, s') \<longrightarrow> s' = demo1" by blast
  with b have c: "snd (move demo1 1 (5, 5, 5)) = demo1" by simp
  from inst[of 1 "(1, 0, 0)"] reachable_demo1 look cm2 obtain s' where
    s': "move demo1 1 (1, 0, 0) = (Inr (), s')"
    "cells (grid s') = (\<lambda>c. if c \<in> set (cells_of brick_O (1, 0, 0)) then 1
                          else if c \<in> set (cells_of brick_O (0, 0, 0)) then 0
                          else cells (grid demo1) c)"
    "map_of (placed s') = (map_of (placed demo1))(1 \<mapsto> (1, brick_O, (1, 0, 0)))"
    by blast
  have "cells (grid s') (0, 0, 0) = 0 \<and> cells (grid s') (1, 0, 0) = 1
         \<and> cells (grid s') (2, 1, 0) = 1
         \<and> map_of (placed s') 1 = Some (1, brick_O, (1, 0, 0))"
    by (simp add: s'(2,3) cells_of_def brick_O_def)
  with a b c s'(1) show ?thesis by blast
qed

section \<open>Bricks whose name has no cache entry\<close>

lemma place_caches:
  "valid_placements (snd (place s b pos)) = valid_placements s
   \<and> valid_rotations (snd (place s b pos)) = valid_rotations s"
  by (auto simp: place_def Let_def split: sum.splits prod.splits)

lemma remove_caches:
  "valid_placements (snd (remove s k)) = valid_placements s
   \<and> valid_rotations (snd (remove s k)) = valid_rotations s"
  by (auto simp: remove_def Let_def split: option.splits prod.splits)

lemma move_caches:
  "valid_placements (snd (move s k pos)) = valid_placements s
   \<and> valid_rotations (snd (move s k pos)) = valid_rotations s"
  by (auto simp: move_def Let_def split: option.splits sum.splits prod.splits)

lemma clear_caches:
  "valid_placements (clear s) = valid_placements s \<and> valid_rotations (clear s) = valid_rotations s"
  by (simp add: clear_def)

lemma load_items_caches:
  "valid_placements (snd (load_items s m its)) = valid_placements s
   \<and> valid_rotations (snd (load_items s m its)) = valid_rotations s"
  by (induction its arbitrary: s m) (auto simp: Let_def split: sum.splits prod.splits)

lemma load_from_file_caches:
  "valid_placements (snd (load_from_file s data)) = valid_placements s
   \<and> valid_rotations (snd (load_from_file s data)) = valid_rotations s"
proof -
  let ?n = "case snap_size data of None \<Rightarrow> 6 | Some k \<Rightarrow> k"
  let ?its = "case snap_placed data of None \<Rightarrow> [] | Some its \<Rightarrow> its"
  show ?thesis
  proof (cases "np_zeros ?n")
    case (Inl e)
    then show ?thesis by (simp add: load_from_file_def Let_def)
  next
    case (Inr g)
    let ?s1 = "s\<lparr>size_g := ?n, grid := g, placed := []\<rparr>"
    obtain r s2 where li: "load_items ?s1 0 ?its = (r, s2)" by (cases "load_items ?s1 0 ?its")
    with load_items_caches[of ?s1 0 ?its]
    have "valid_placements s2 = valid_placements s \<and> valid_rotations s2 = valid_rotations s"
      by simp
    with Inr li show ?thesis
      by (cases r) (simp_all add: load_from_file_def Let_def)
  qed
qed

lemma engine_state_caches:
  "engine_state s \<Longrightarrow>
   \<exists>n s0. CubeGrid_init n = Inr s0 \<and> valid_placements s = valid_placements s0
          \<and> valid_rotations s = valid_rotations s0"
proof (induction rule: engine_state.induct)
  case (es_init n s)
  then show ?case by blast
next
  case (es_place s b pos)
  then show ?case using place_caches[of s b pos] by auto
next
  case (es_remove s pid)
  then show ?case using remove_caches[of s pid] by auto
next
  case (es_move s pid pos)
  then show ?case using move_caches[of s pid pos] by auto
next
  case (es_clear s)
  then show ?case using clear_caches[of s] by auto
next
  case (es_load s data)
  then show ?case using load_from_file_caches[of s data] by auto
qed

lemma no_cache_entry:
  assumes "map_of (valid_placements s) (name b) = None"
  shows "validate_placements s b = Inr []" and "can_not_place_somewhere s b = Inr False"
  using assms by (simp_all add: validate_placements_def can_not_place_somewhere_def dict_get_set_def)

text \<open>
  Claim C10. In every state of an engine object and for every brick whose name is none of
  the five template keys, \<^verbatim>\<open>validate_placements\<close> returns the empty list and
  \<^verbatim>\<open>can_not_place_somewhere\<close> returns false; neither raises.
\<close>

theorem unknown_name_is_empty:
  assumes "engine_state s" and "name b \<notin> {''T'', ''I'', ''L'', ''O'', ''S3D''}"
  shows "validate_placements s b = Inr [] \<and> can_not_place_somewhere s b = Inr False"
proof -
  from engine_state_caches[OF assms(1)] obtain n s0 where
    s0: "CubeGrid_init n = Inr s0" "valid_placements s = valid_placements s0" by blast
  have "name b \<notin> fst ` set default_bricks"
    using assms(2) default_bricks_keys by (metis list.set_map list.simps(15) empty_set)
  from CubeGrid_init_result(9)[OF s0(1) this] s0(2)
  have "map_of (valid_placements s) (name b) = None" by simp
  then show ?thesis by (simp add: no_cache_entry)
qed

theorem unknown_name_is_empty_witness:
  "validate_placements demo1 \<lparr>cubes = cubes brick_T, name = ''brick''\<rparr> = Inr []
   \<and> can_not_place_somewhere demo1 \<lparr>cubes = cubes brick_T, name = ''brick''\<rparr> = Inr False"
proof -
  have "engine_state fresh6" using CubeGrid_init_fresh6 by (rule es_init)
  then have "engine_state (snd (place fresh6 brick_O (0, 0, 0)))" by (rule es_place)
  then have es: "engine_state demo1" by (simp add: demo1_def)
  show ?thesis
    using unknown_name_is_empty[OF es, of "\<lparr>cubes = cubes brick_T, name = ''brick''\<rparr>"]
    by simp
qed

section \<open>Saving and loading\<close>

lemma Brick_init_wf: "wf_brick b \<Longrightarrow> Brick_init (cubes b) (name b) = Inr b"
  by (simp add: Brick_init_def wf_brick_def)

lemma load_items_entries:
  assumes "\<And>k pid b pos. (k, pid, b, pos) \<in> set es \<Longrightarrow>
             pid = k \<and> int64_ok k \<and> wf_brick b
             \<and> (\<forall>c \<in> set (cells_of b pos). in_grid (shape (grid t)) c)"
    and "distinct (map fst es)"
    and "\<And>k. k \<in> fst ` set es \<Longrightarrow> k \<notin> fst ` set (placed t)"
  shows "\<exists>m'. load_items t m (map item_of es) =
           (Inr m', t\<lparr>grid := (grid t)\<lparr>cells := paint es (cells (grid t))\<rparr>,
                       placed := placed t @ es\<rparr>)"
  using assms
proof (induction es arbitrary: t m)
  case Nil
  then show ?case by simp
next
  case (Cons e es)
  obtain k pid b pos where e: "e = (k, pid, b, pos)" by (metis prod_cases4)
  from Cons.prems(1)[of k pid b pos] have en: "pid = k" "int64_ok k" "wf_brick b"
    "\<forall>c \<in> set (cells_of b pos). in_grid (shape (grid t)) c"
    by (simp_all add: e)
  have bi: "Brick_init (item_cubes (item_of e)) (case item_name (item_of e) of None \<Rightarrow> [] | Some n \<Rightarrow> n) = Inr b"
    using en(3) by (simp add: e item_of_def Brick_init_wf)
  let ?g = "(grid t)\<lparr>cells := (\<lambda>c. if c \<in> set (cells_of b pos) then k else cells (grid t) c)\<rparr>"
  have asg: "assign_cells (grid t) pos (cubes b) k = (Inr (), ?g)"
    using assign_cells_in_grid[of pos "cubes b" "grid t" k] en(2,4) by (simp add: cells_of_def)
  have fresh: "k \<notin> fst ` set (placed t)" using Cons.prems(3)[of k] by (simp add: e)
  let ?t' = "t\<lparr>grid := ?g, placed := placed t @ [(k, k, b, pos)]\<rparr>"
  have step: "load_items t m (map item_of (e # es)) =
      load_items ?t' (if k > m then k else m) (map item_of es)"
    using bi asg by (simp add: e item_of_def Let_def dict_set_def update_absent[OF fresh])
  have "\<exists>m'. load_items ?t' (if k > m then k else m) (map item_of es) =
           (Inr m', ?t'\<lparr>grid := (grid ?t')\<lparr>cells := paint es (cells (grid ?t'))\<rparr>,
                       placed := placed ?t' @ es\<rparr>)"
  proof (rule Cons.IH)
    show "pid' = k' \<and> int64_ok k' \<and> wf_brick b'
             \<and> (\<forall>c \<in> set (cells_of b' pos'). in_grid (shape (grid ?t')) c)"
      if "(k', pid', b', pos') \<in> set es" for k' pid' b' pos'
      using Cons.prems(1)[of k' pid' b' pos'] that by simp
    show "distinct (map fst es)" using Cons.prems(2) by simp
    show "k' \<notin> fst ` set (placed ?t')" if "k' \<in> fst ` set es" for k'
      using Cons.prems(2) Cons.prems(3)[of k'] that by (auto simp: e)
  qed
  then show ?case unfolding step by (simp add: e en(1))
qed

lemma paint_uncovered:
  assumes "\<And>k pid b pos. (k, pid, b, pos) \<in> set es \<Longrightarrow> c \<notin> set (cells_of b pos)"
  shows "paint es f c = f c"
  using assms
proof (induction es arbitrary: f)
  case Nil
  then show ?case by simp
next
  case (Cons e es)
  obtain k pid b pos where e: "e = (k, pid, b, pos)" by (metis prod_cases4)
  have "paint es (\<lambda>c. if c \<in> set (cells_of b pos) then k else f c) c =
        (\<lambda>c. if c \<in> set (cells_of b pos) then k else f c) c"
  proof (rule Cons.IH)
    fix k' pid' b' pos'
    assume "(k', pid', b', pos') \<in> set es"
    then show "c \<notin> set (cells_of b' pos')" using Cons.prems[of k' pid' b' pos'] by simp
  qed
  moreover have "c \<notin> set (cells_of b pos)" using Cons.prems[of k pid b pos] by (simp add: e)
  ultimately show ?case by (simp add: e)
qed

lemma paint_covered:
  assumes "\<And>k pid b pos. (k, pid, b, pos) \<in> set es \<Longrightarrow> c \<in> set (cells_of b pos) \<Longrightarrow> k = K"
    and "(k0, pid0, b0, pos0) \<in> set es" and "c \<in> set (cells_of b0 pos0)"
  shows "paint es f c = K"
  using assms
proof (induction es arbitrary: f k0 pid0 b0 pos0)
  case Nil
  then show ?case by simp
next
  case (Cons e es)
  obtain k pid b pos where e: "e = (k, pid, b, pos)" by (metis prod_cases4)
  let ?f = "\<lambda>c. if c \<in> set (cells_of b pos) then k else f c"
  have same: "k' = K" if "(k', pid', b', pos') \<in> set es" "c \<in> set (cells_of b' pos')"
    for k' pid' b' pos'
    using Cons.prems(1)[of k' pid' b' pos'] that by simp
  show ?case
  proof (cases "\<exists>x \<in> set es. c \<in> set (cells_of (fst (snd (snd x))) (snd (snd (snd x))))")
    case True
    then obtain x where x: "x \<in> set es" "c \<in> set (cells_of (fst (snd (snd x))) (snd (snd (snd x))))"
      by blast
    obtain k1 pid1 b1 pos1 where x1: "x = (k1, pid1, b1, pos1)" by (metis prod_cases4)
    from x have m: "(k1, pid1, b1, pos1) \<in> set es" "c \<in> set (cells_of b1 pos1)"
      by (simp_all add: x1)
    have "paint es ?f c = K" by (rule Cons.IH[OF same m])
    then show ?thesis by (simp add: e)
  next
    case False
    have u: "paint es ?f c = ?f c"
    proof (rule paint_uncovered)
      fix k' pid' b' pos'
      assume "(k', pid', b', pos') \<in> set es"
      with False show "c \<notin> set (cells_of b' pos')" by force
    qed
    from False Cons.prems(2,3) have here: "(k0, pid0, b0, pos0) = e" by force
    from here Cons.prems(3) have cin: "c \<in> set (cells_of b pos)" by (simp add: e)
    from here Cons.prems(1)[of k0 pid0 b0 pos0] Cons.prems(3) have kK: "k = K"
      by (simp add: e)
    from u cin have r: "paint es ?f c = k" by simp
    show ?thesis unfolding kK[symmetric] using r by (simp add: e)
  qed
qed

lemma paint_placed:
  assumes ok: "state_ok s"
  shows "paint (placed s) (\<lambda>c. 0) = cells (grid s)"
proof
  fix c
  show "paint (placed s) (\<lambda>c. 0) c = cells (grid s) c"
  proof (cases "cells (grid s) c = 0")
    case True
    have "paint (placed s) (\<lambda>c. 0) c = (\<lambda>c. 0) c"
    proof (rule paint_uncovered)
      fix k pid b pos
      assume "(k, pid, b, pos) \<in> set (placed s)"
      from state_ok_entry[OF ok this] True show "c \<notin> set (cells_of b pos)" by auto
    qed
    with True show ?thesis by simp
  next
    case False
    from state_ok_cover[OF ok False] obtain pid b pos where
      en: "(cells (grid s) c, pid, b, pos) \<in> set (placed s)" and c: "c \<in> set (cells_of b pos)"
      by blast
    show ?thesis
    proof (rule paint_covered[OF _ en c])
      fix k' pid' b' pos'
      assume "(k', pid', b', pos') \<in> set (placed s)" "c \<in> set (cells_of b' pos')"
      with state_ok_entry[OF ok this(1)] show "k' = cells (grid s) c" by simp
    qed
  qed
qed

lemma load_items_max:
  "load_items s m its = (Inr m', s') \<Longrightarrow> m' = Max (insert m (item_pid ` set its))"
proof (induction its arbitrary: s m)
  case Nil
  then show ?case by simp
next
  case (Cons it its)
  from Cons.prems obtain s1 where
    "load_items s1 (if item_pid it > m then item_pid it else m) its = (Inr m', s')"
    by (auto simp: Let_def split: sum.splits prod.splits)
  from Cons.IH[OF this]
  have "m' = Max (insert (max m (item_pid it)) (item_pid ` set its))"
    by (simp add: max_def not_less)
  also have "\<dots> = Max (insert m (item_pid ` set (it # its)))"
    by (cases "its = []") (simp_all add: insert_commute max.assoc)
  finally show ?case .
qed

lemma load_from_file_fallback:
  assumes "snap_next_id data = None" and "load_from_file t data = (Inr u, t')"
  shows "next_id t' =
     Max (insert 0 (item_pid ` set (case snap_placed data of None \<Rightarrow> [] | Some its \<Rightarrow> its))) + 1"
proof -
  let ?n = "case snap_size data of None \<Rightarrow> 6 | Some k \<Rightarrow> k"
  let ?its = "case snap_placed data of None \<Rightarrow> [] | Some its \<Rightarrow> its"
  from assms(2) obtain g where g: "np_zeros ?n = Inr g"
    by (cases "np_zeros ?n") (auto simp: load_from_file_def Let_def)
  let ?s1 = "t\<lparr>size_g := ?n, grid := g, placed := []\<rparr>"
  from assms g obtain m' s2 where li: "load_items ?s1 0 ?its = (Inr m', s2)"
    and t': "t' = s2\<lparr>next_id := m' + 1\<rparr>"
    by (auto simp: load_from_file_def Let_def split: sum.splits prod.splits)
  from load_items_max[OF li] t' show ?thesis by simp
qed

lemma load_to_dict:
  assumes ok: "state_ok s"
  shows "\<exists>m'. load_from_file t ((to_dict s)\<lparr>snap_next_id := nid\<rparr>) =
     (Inr (), t\<lparr>size_g := size_g s, grid := grid s, placed := placed s,
                  next_id := (case nid of None \<Rightarrow> m' + 1 | Some k \<Rightarrow> k)\<rparr>)"
proof -
  let ?n = "size_g s"
  have z: "np_zeros ?n = Inr \<lparr>shape = ?n, cells = (\<lambda>c. 0)\<rparr>"
    using state_ok_shape[OF ok] by (simp add: np_zeros_def)
  let ?s1 = "t\<lparr>size_g := ?n, grid := \<lparr>shape = ?n, cells = (\<lambda>c. 0)\<rparr>, placed := []\<rparr>"
  have "\<exists>m'. load_items ?s1 0 (map item_of (placed s)) =
           (Inr m', ?s1\<lparr>grid := (grid ?s1)\<lparr>cells := paint (placed s) (cells (grid ?s1))\<rparr>,
                       placed := placed ?s1 @ placed s\<rparr>)"
  proof (rule load_items_entries)
    show "pid = k \<and> int64_ok k \<and> wf_brick b
             \<and> (\<forall>c \<in> set (cells_of b pos). in_grid (shape (grid ?s1)) c)"
      if "(k, pid, b, pos) \<in> set (placed s)" for k pid b pos
      using state_ok_entry[OF ok that] by simp
    show "distinct (map fst (placed s))" by (rule state_ok_distinct[OF ok])
    show "k \<notin> fst ` set (placed ?s1)" for k by simp
  qed
  then obtain m' where li: "load_items ?s1 0 (map item_of (placed s)) =
           (Inr m', ?s1\<lparr>grid := \<lparr>shape = ?n, cells = cells (grid s)\<rparr>, placed := placed s\<rparr>)"
    by (auto simp: paint_placed[OF ok])
  have g: "\<lparr>shape = ?n, cells = cells (grid s)\<rparr> = grid s"
    using state_ok_shape[OF ok] by simp
  show ?thesis
    using z li by (intro exI[of _ m']) (simp add: load_from_file_def to_dict_def Let_def g)
qed

text \<open>
  Claim C6. For every reachable state, loading the document that \<^verbatim>\<open>to_dict\<close> builds
  from it (into any grid object) succeeds and reproduces the size, the occupancy array cell
  for cell, the registry (the same ids, in the same order, with equal bricks and positions)
  and \<open>next_id\<close>. When the document has no \<^verbatim>\<open>next_id\<close>, a successful load sets it to
  one more than the largest loaded id, where the running maximum starts at 0 (so the result
  is 1 when nothing is loaded).
\<close>

theorem save_load_roundtrip:
  "(reachable s \<longrightarrow>
      load_from_file t (to_dict s) =
        (Inr (), t\<lparr>size_g := size_g s, grid := grid s, placed := placed s,
                    next_id := next_id s\<rparr>))
   \<and> (snap_next_id data = None \<and> load_from_file t data = (Inr (), t') \<longrightarrow>
        next_id t' =
          Max (insert 0 (item_pid ` set (case snap_placed data of None \<Rightarrow> [] | Some its \<Rightarrow> its)))
          + 1)"
proof (intro conjI impI)
  assume "reachable s"
  then have ok: "state_ok s" by (rule reachable_state_ok)
  have "(to_dict s)\<lparr>snap_next_id := Some (next_id s)\<rparr> = to_dict s"
    by (simp add: to_dict_def)
  with load_to_dict[OF ok, of t "Some (next_id s)"]
  show "load_from_file t (to_dict s) =
        (Inr (), t\<lparr>size_g := size_g s, grid := grid s, placed := placed s,
                    next_id := next_id s\<rparr>)"
    by simp
next
  assume "snap_next_id data = None \<and> load_from_file t data = (Inr (), t')"
  then show "next_id t' =
          Max (insert 0 (item_pid ` set (case snap_placed data of None \<Rightarrow> [] | Some its \<Rightarrow> its)))
          + 1"
    using load_from_file_fallback[of data t "()" t'] by simp
qed

theorem save_load_roundtrip_witness:
  "load_from_file fresh3 (to_dict demo1) =
     (Inr (), fresh3\<lparr>size_g := size_g demo1, grid := grid demo1, placed := placed demo1,
                      next_id := next_id demo1\<rparr>)
   \<and> (\<exists>t'. load_from_file fresh3 ((to_dict demo1)\<lparr>snap_next_id := None\<rparr>) = (Inr (), t')
          \<and> next_id t' = 2)"
proof -
  note ok = reachable_state_ok[OF reachable_demo1]
  from load_to_dict[OF ok, of fresh3 None] obtain t' where
    t': "load_from_file fresh3 ((to_dict demo1)\<lparr>snap_next_id := None\<rparr>) = (Inr (), t')"
    by blast
  have "next_id t' = 2"
    using save_load_roundtrip[of demo1 fresh3 "(to_dict demo1)\<lparr>snap_next_id := None\<rparr>" t'] t'
    by (simp add: to_dict_def demo1_fields item_of_def)
  with t' save_load_roundtrip[of demo1 fresh3] reachable_demo1 show ?thesis by blast
qed

section \<open>The orientation cache\<close>

lemma rots_T_Inr:
  "collect_rotations brick_T rotation_triples = Inr (projr (collect_rotations brick_T rotation_triples))"
  using collect_rotations_wf[of brick_T rotation_triples] by (auto simp: brick_T_def)

lemma rots_T_length: "length (projr (collect_rotations brick_T rotation_triples)) = 64"
  by code_simp

lemma rots_T_0: "projr (collect_rotations brick_T rotation_triples) ! 0 = brick_T"
  by code_simp

lemma rots_T_42: "projr (collect_rotations brick_T rotation_triples) ! 42 = brick_T"
  by code_simp

lemma rots_T_shapes:
  "length (remdups (map (\<lambda>r. sort (cubes r)) (projr (collect_rotations brick_T rotation_triples)))) = 12"
  by code_simp

lemma triples_0_42: "rotation_triples ! 0 = (0, 0, 0)" "rotation_triples ! 42 = (2, 2, 2)"
  by code_simp+

lemma fresh6_rotations_T:
  "map_of (valid_rotations fresh6) ''T'' = Some (projr (collect_rotations brick_T rotation_triples))"
  using CubeGrid_init_result(8)[OF CubeGrid_init_fresh6, of "''T''" brick_T] rots_T_Inr
  by (auto simp: default_bricks_def)

text \<open>
  Claim C2 says that the cache \<^verbatim>\<open>valid_rotations\<close> is deduplicated by cube set. In the
  code the set compares Brick objects by identity, so on a fresh grid of size 6 the cache of
  the T template holds all 64 objects, one per rotation triple: the triples \<open>(0, 0, 0)\<close> and
  \<open>(2, 2, 2)\<close> both contribute the unrotated T, and the 64 members have only 12 different
  sorted cube lists.
\<close>

theorem valid_rotations_keeps_every_object:
  "\<exists>rots. map_of (valid_rotations fresh6) ''T'' = Some rots
     \<and> length rots = 64
     \<and> rotation_triples ! 0 = (0, 0, 0) \<and> rotation_triples ! 42 = (2, 2, 2)
     \<and> rots ! 0 = brick_T \<and> rots ! 42 = brick_T
     \<and> length (remdups (map (\<lambda>r. sort (cubes r)) rots)) = 12"
  using fresh6_rotations_T rots_T_length rots_T_0 rots_T_42 rots_T_shapes triples_0_42
  by blast

section \<open>The infeasibility oracle\<close>

lemma collect_empties_ok:
  "\<forall>c \<in> set cs. in_grid (shape g) c \<Longrightarrow>
   collect_empties g cs = Inr (filter (\<lambda>c. cells g c = 0) cs)"
  by (induction cs) (simp_all add: np_get_in_grid)

lemma count_empty_ok:
  "\<forall>c \<in> set cs. in_grid (shape g) c \<Longrightarrow>
   count_empty g cs = Inr (int (length (filter (\<lambda>c. cells g c = 0) cs)))"
  by (induction cs) (simp_all add: np_get_in_grid)

lemma cannot_loop_ok:
  "size_g s \<le> shape (grid s) \<Longrightarrow>
   cannot_loop s rots es = Inr (\<exists>e \<in> set es. \<not> (\<exists>r \<in> set rots. can_place s r e = Inr True))"
  by (induction es) (auto simp: any_can_place_ok)

lemma cache_origins_in_grid:
  assumes ok: "state_ok s"
  shows "\<forall>c \<in> set (dict_get_set (valid_placements s) nm). in_grid (shape (grid s)) c"
proof (cases "map_of (valid_placements s) nm")
  case None
  then show ?thesis by (simp add: dict_get_set_def)
next
  case (Some os)
  then have "(nm, os) \<in> set (valid_placements s)" by (rule map_of_SomeD)
  with state_ok_cache[OF ok this] state_ok_shape[OF ok] Some show ?thesis
    by (simp add: dict_get_set_def)
qed

lemma can_not_place_somewhere_ok:
  assumes ok: "state_ok s"
  shows "can_not_place_somewhere s b =
     Inr (\<exists>e \<in> set (dict_get_set (valid_placements s) (name b)).
            cells (grid s) e = 0
            \<and> \<not> (\<exists>r \<in> set (dict_get_set (valid_rotations s) (name b)). can_place s r e = Inr True))"
proof -
  let ?os = "dict_get_set (valid_placements s) (name b)"
  let ?rots = "dict_get_set (valid_rotations s) (name b)"
  let ?es = "filter (\<lambda>c. cells (grid s) c = 0) ?os"
  have ce: "collect_empties (grid s) ?os = Inr ?es"
    by (rule collect_empties_ok[OF cache_origins_in_grid[OF ok]])
  have cl: "cannot_loop s ?rots ?es =
      Inr (\<exists>e \<in> set ?es. \<not> (\<exists>r \<in> set ?rots. can_place s r e = Inr True))"
    using state_ok_shape[OF ok] by (intro cannot_loop_ok) simp
  show ?thesis
  proof (cases "?es = []")
    case True
    then have "\<forall>e \<in> set ?os. cells (grid s) e \<noteq> 0" by (simp add: filter_empty_conv)
    with ce True show ?thesis by (auto simp: can_not_place_somewhere_def)
  next
    case False
    with ce cl show ?thesis by (auto simp: can_not_place_somewhere_def)
  qed
qed

lemma num_left_ok:
  assumes ok: "state_ok s"
  shows "num_left s =
     Inr (int (length (filter (\<lambda>c. cells (grid s) c = 0) (grid_origins (size_g s)))))"
  unfolding num_left_def using state_ok_shape[OF ok]
  by (intro count_empty_ok) (simp add: in_grid_origins)

lemma full_grid_not_blocked:
  assumes ok: "state_ok s" and full: "num_left s = Inr 0"
  shows "can_not_place_somewhere s b = Inr False"
proof -
  from full have "filter (\<lambda>c. cells (grid s) c = 0) (grid_origins (size_g s)) = []"
    by (simp add: num_left_ok[OF ok])
  then have nz: "cells (grid s) c \<noteq> 0" if "in_grid (size_g s) c" for c
    using that by (auto simp: filter_empty_conv in_grid_origins)
  have "cells (grid s) e \<noteq> 0" if "e \<in> set (dict_get_set (valid_placements s) (name b))" for e
    using cache_origins_in_grid[OF ok, of "name b"] that state_ok_shape[OF ok] nz by auto
  then show ?thesis by (auto simp: can_not_place_somewhere_ok[OF ok])
qed

lemma fresh_grid_not_blocked:
  assumes init: "CubeGrid_init n = Inr s" and b: "(nm, b) \<in> set default_bricks"
  shows "can_not_place_somewhere s b = Inr False"
proof -
  note ok = state_ok_init[OF init]
  from default_bricks_wf[OF b] have nm: "name b = nm" by simp
  from CubeGrid_init_result(8)[OF init b] obtain rots where
    vr: "map_of (valid_rotations s) nm = Some rots" and
    vp: "map_of (valid_placements s) nm =
           Some (filter (\<lambda>c. any_can_place s rots c = Inr True) (grid_origins n))"
    by blast
  have "\<exists>r \<in> set rots. can_place s r e = Inr True"
    if "e \<in> set (filter (\<lambda>c. any_can_place s rots c = Inr True) (grid_origins n))" for e
    using that state_ok_shape[OF ok] by (simp add: any_can_place_ok)
  then show ?thesis
    by (auto simp: can_not_place_somewhere_ok[OF ok] nm dict_get_set_def vr vp)
qed

lemma place_all_ok:
  assumes "reachable s" and "wf_brick b"
    and "distinct (concat (map (cells_of b) ps))"
    and "\<forall>c \<in> set (concat (map (cells_of b) ps)). in_grid (size_g s) c \<and> cells (grid s) c = 0"
    and "next_id s + int (length ps) \<le> 2 ^ 63"
  shows "reachable (place_all s b ps) \<and> size_g (place_all s b ps) = size_g s
     \<and> (\<forall>c. cells (grid (place_all s b ps)) c = 0 \<longleftrightarrow>
            cells (grid s) c = 0 \<and> c \<notin> set (concat (map (cells_of b) ps)))"
  using assms
proof (induction ps arbitrary: s)
  case Nil
  then show ?case by simp
next
  case (Cons p ps)
  note ok = reachable_state_ok[OF Cons.prems(1)]
  have cp: "can_place s b p = Inr True"
    using Cons.prems(4) state_ok_shape[OF ok] by (simp add: can_place_ok)
  have i64: "int64_ok (next_id s)"
    using Cons.prems(5) state_ok_next_id[OF ok] by (simp add: int64_ok_def)
  from place_succeeds[OF cp i64] obtain s1 where pl: "place s b p = (Inr (next_id s), s1)"
    by blast
  have r1: "reachable s1" using Cons.prems(1,2) pl by (rule reach_place)
  note p = place_Inr[OF pl]
  have cells1: "cells (grid s1) c = (if c \<in> set (cells_of b p) then next_id s else cells (grid s) c)" for c
    by (subst p(3)) simp
  have sz1: "size_g s1 = size_g s" "next_id s1 = next_id s + 1"
    by (subst p(3), simp)+
  have IH: "reachable (place_all s1 b ps) \<and> size_g (place_all s1 b ps) = size_g s1
     \<and> (\<forall>c. cells (grid (place_all s1 b ps)) c = 0 \<longleftrightarrow>
            cells (grid s1) c = 0 \<and> c \<notin> set (concat (map (cells_of b) ps)))"
  proof (rule Cons.IH[OF r1 Cons.prems(2)])
    show "distinct (concat (map (cells_of b) ps))" using Cons.prems(3) by simp
    show "\<forall>c \<in> set (concat (map (cells_of b) ps)). in_grid (size_g s1) c \<and> cells (grid s1) c = 0"
      using Cons.prems(3,4) by (auto simp: cells1 sz1)
    show "next_id s1 + int (length ps) \<le> 2 ^ 63" using Cons.prems(5) by (simp add: sz1)
  qed
  have "next_id s \<noteq> 0" using state_ok_next_id[OF ok] by simp
  with IH show ?case by (auto simp: pl cells1 sz1)
qed

lemma tiling_distinct: "distinct (concat (map (cells_of brick_O) o_tiling))"
  by (simp add: o_tiling_def py_range_def cells_of_def brick_O_def upto.simps)

lemma tiling_covers: "set (grid_origins 6) \<subseteq> set (concat (map (cells_of brick_O) o_tiling))"
  by (simp add: grid_origins_def o_tiling_def py_range_def cells_of_def brick_O_def upto.simps)

lemma tiling_in_grid: "\<forall>c \<in> set (concat (map (cells_of brick_O) o_tiling)). in_grid 6 c"
  by (simp add: o_tiling_def py_range_def cells_of_def brick_O_def upto.simps in_grid_def)

lemma full6_facts:
  "reachable full6" "size_g full6 = 6" "in_grid 6 c \<Longrightarrow> cells (grid full6) c \<noteq> 0"
proof -
  have "reachable (place_all fresh6 brick_O o_tiling) \<and> size_g (place_all fresh6 brick_O o_tiling) = size_g fresh6
     \<and> (\<forall>c. cells (grid (place_all fresh6 brick_O o_tiling)) c = 0 \<longleftrightarrow>
            cells (grid fresh6) c = 0 \<and> c \<notin> set (concat (map (cells_of brick_O) o_tiling)))"
  proof (rule place_all_ok[OF reachable_fresh6 wf_brick_O tiling_distinct])
    show "\<forall>c \<in> set (concat (map (cells_of brick_O) o_tiling)).
        in_grid (size_g fresh6) c \<and> cells (grid fresh6) c = 0"
      using tiling_in_grid by (simp add: fresh6_fields)
    have "length o_tiling = 54" by (simp add: o_tiling_def py_range_def upto.simps)
    then show "next_id fresh6 + int (length o_tiling) \<le> 2 ^ 63" by (simp add: fresh6_fields)
  qed
  then have f: "reachable full6" "size_g full6 = 6"
    "\<forall>c. cells (grid full6) c = 0 \<longleftrightarrow> c \<notin> set (concat (map (cells_of brick_O) o_tiling))"
    unfolding full6_def[symmetric] by (simp_all add: fresh6_fields del: split_paired_All)
  show "reachable full6" "size_g full6 = 6" by (rule f)+
  show "cells (grid full6) c \<noteq> 0" if "in_grid 6 c"
  proof -
    from that have "c \<in> set (grid_origins 6)" by (simp add: in_grid_origins)
    with tiling_covers have "c \<in> set (concat (map (cells_of brick_O) o_tiling))" by blast
    with f(3) show ?thesis by blast
  qed
qed

lemma num_left_full6: "num_left full6 = Inr 0"
proof -
  note ok = reachable_state_ok[OF full6_facts(1)]
  have "filter (\<lambda>c. cells (grid full6) c = 0) (grid_origins (size_g full6)) = []"
    using full6_facts(3) by (auto simp: filter_empty_conv full6_facts(2) in_grid_origins)
  then show ?thesis by (simp add: num_left_ok[OF ok])
qed

lemma place_step:
  assumes r: "reachable s" and wf: "wf_brick b"
    and free: "\<forall>c \<in> set (cells_of b pos). in_grid (size_g s) c \<and> cells (grid s) c = 0"
    and small: "next_id s < 2 ^ 63"
  shows "reachable (snd (place s b pos))"
    and "size_g (snd (place s b pos)) = size_g s"
    and "next_id (snd (place s b pos)) = next_id s + 1"
    and "cells (grid (snd (place s b pos))) =
           (\<lambda>c. if c \<in> set (cells_of b pos) then next_id s else cells (grid s) c)"
    and "valid_placements (snd (place s b pos)) = valid_placements s"
    and "valid_rotations (snd (place s b pos)) = valid_rotations s"
proof -
  note ok = reachable_state_ok[OF r]
  have cp: "can_place s b pos = Inr True"
    using free state_ok_shape[OF ok] by (simp add: can_place_ok)
  have i64: "int64_ok (next_id s)"
    using small state_ok_next_id[OF ok] by (simp add: int64_ok_def)
  from place_succeeds[OF cp i64] obtain s1 where pl: "place s b pos = (Inr (next_id s), s1)"
    by blast
  note p = place_Inr(3)[OF pl]
  show "reachable (snd (place s b pos))" using reach_place[OF r wf pl] pl by simp
  show "size_g (snd (place s b pos)) = size_g s" unfolding pl by (subst p) simp
  show "next_id (snd (place s b pos)) = next_id s + 1" unfolding pl by (subst p) simp
  show "cells (grid (snd (place s b pos))) =
           (\<lambda>c. if c \<in> set (cells_of b pos) then next_id s else cells (grid s) c)"
    unfolding pl by (subst p) simp
  show "valid_placements (snd (place s b pos)) = valid_placements s"
    "valid_rotations (snd (place s b pos)) = valid_rotations s"
    using place_caches[of s b pos] by simp_all
qed

lemma cornered6_facts:
  "reachable cornered6"
  "size_g cornered6 = 6"
  "cells (grid cornered6) (0, 0, 0) = 0"
  "cells (grid cornered6) (1, 0, 0) \<noteq> 0"
  "cells (grid cornered6) (0, 1, 0) \<noteq> 0"
  "cells (grid cornered6) (0, 0, 1) \<noteq> 0"
  "valid_placements cornered6 = valid_placements fresh6"
  "valid_rotations cornered6 = valid_rotations fresh6"
proof -
  let ?s1 = "snd (place fresh6 brick_I (1, 0, 0))"
  let ?s2 = "snd (place ?s1 brick_T (0, 1, 0))"
  have wf: "wf_brick brick_I" "wf_brick brick_T" "wf_brick brick_O"
    by (simp_all add: wf_brick_def brick_defs)
  have c1: "cells_of brick_I (1, 0, 0) = [(1, 0, 0), (2, 0, 0), (3, 0, 0), (4, 0, 0)]"
    and c2: "cells_of brick_T (0, 1, 0) = [(0, 1, 0), (1, 1, 0), (2, 1, 0), (1, 2, 0)]"
    and c3: "cells_of brick_O (0, 0, 1) = [(0, 0, 1), (1, 0, 1), (0, 1, 1), (1, 1, 1)]"
    by (simp_all add: cells_of_def brick_defs)
  have f1: "\<forall>c \<in> set (cells_of brick_I (1, 0, 0)). in_grid (size_g fresh6) c \<and> cells (grid fresh6) c = 0"
    by (simp add: c1 fresh6_fields in_grid_def)
  note s1 = place_step[OF reachable_fresh6 wf(1) f1, unfolded fresh6_fields c1, simplified]
  have f2: "\<forall>c \<in> set (cells_of brick_T (0, 1, 0)). in_grid (size_g ?s1) c \<and> cells (grid ?s1) c = 0"
    by (simp add: c2 s1 in_grid_def)
  note s2 = place_step[OF s1(1) wf(2) f2, unfolded s1 c2, simplified]
  have f3: "\<forall>c \<in> set (cells_of brick_O (0, 0, 1)). in_grid (size_g ?s2) c \<and> cells (grid ?s2) c = 0"
    by (simp add: c3 s2 in_grid_def)
  note s3 = place_step[OF s2(1) wf(3) f3, unfolded s2 c3, simplified]
  show "reachable cornered6" "size_g cornered6 = 6"
    "cells (grid cornered6) (0, 0, 0) = 0"
    "cells (grid cornered6) (1, 0, 0) \<noteq> 0"
    "cells (grid cornered6) (0, 1, 0) \<noteq> 0"
    "cells (grid cornered6) (0, 0, 1) \<noteq> 0"
    "valid_placements cornered6 = valid_placements fresh6"
    "valid_rotations cornered6 = valid_rotations fresh6"
    unfolding cornered6_def using s3 by simp_all
qed

lemma rots_T_units:
  "list_all (\<lambda>r. (1, 0, 0) \<in> set (cubes r) \<or> (0, 1, 0) \<in> set (cubes r) \<or> (0, 0, 1) \<in> set (cubes r))
     (projr (collect_rotations brick_T rotation_triples))"
  by code_simp

lemma fresh6_placements_T:
  "map_of (valid_placements fresh6) ''T'' =
     Some (filter (\<lambda>c. any_can_place fresh6 (projr (collect_rotations brick_T rotation_triples)) c
                        = Inr True) (grid_origins 6))"
  using CubeGrid_init_result(8)[OF CubeGrid_init_fresh6, of "''T''" brick_T] rots_T_Inr
  by (auto simp: default_bricks_def)

lemma brick_T_in_rots: "brick_T \<in> set (projr (collect_rotations brick_T rotation_triples))"
  using rots_T_0 rots_T_length by (metis nth_mem zero_less_numeral)

lemma origin_000_cached: "(0, 0, 0) \<in> set (dict_get_set (valid_placements fresh6) ''T'')"
proof -
  have "can_place fresh6 brick_T (0, 0, 0) = Inr True"
    by (simp add: can_place_ok fresh6_fields cells_of_def brick_T_def in_grid_def)
  with brick_T_in_rots
  have "any_can_place fresh6 (projr (collect_rotations brick_T rotation_triples)) (0, 0, 0) = Inr True"
    by (auto simp: any_can_place_ok fresh6_fields)
  then show ?thesis
    by (simp add: dict_get_set_def fresh6_placements_T in_grid_origins in_grid_def)
qed

lemma shift_origin: "map (shift (0, 0, 0)) cs = cs"
  by (induction cs) auto

lemma cornered6_blocks_T:
  "\<exists>e \<in> set (dict_get_set (valid_placements cornered6) (name brick_T)).
      cells (grid cornered6) e = 0
      \<and> \<not> (\<exists>r \<in> set (dict_get_set (valid_rotations cornered6) (name brick_T)).
               can_place cornered6 r e = Inr True)"
proof (rule bexI[of _ "(0, 0, 0)"], intro conjI notI)
  have nm: "name brick_T = ''T''" by (simp add: brick_T_def)
  show "(0, 0, 0) \<in> set (dict_get_set (valid_placements cornered6) (name brick_T))"
    using origin_000_cached by (simp add: nm cornered6_facts)
  show "cells (grid cornered6) (0, 0, 0) = 0" by (rule cornered6_facts)
  assume "\<exists>r \<in> set (dict_get_set (valid_rotations cornered6) (name brick_T)).
               can_place cornered6 r (0, 0, 0) = Inr True"
  then obtain r where r: "r \<in> set (projr (collect_rotations brick_T rotation_triples))"
    and cp: "can_place cornered6 r (0, 0, 0) = Inr True"
    by (auto simp: nm cornered6_facts dict_get_set_def fresh6_rotations_T)
  note ok = reachable_state_ok[OF cornered6_facts(1)]
  from cp have zero: "\<forall>c \<in> set (cubes r). cells (grid cornered6) c = 0"
    using state_ok_shape[OF ok] by (simp add: can_place_ok cells_of_def shift_origin)
  from r rots_T_units have "(1, 0, 0) \<in> set (cubes r) \<or> (0, 1, 0) \<in> set (cubes r)
      \<or> (0, 0, 1) \<in> set (cubes r)"
    by (simp add: list_all_iff)
  with zero cornered6_facts(4,5,6) show False by blast
qed

text \<open>
  Claim C1, as amended. On a freshly constructed grid of size 6,
  \<^verbatim>\<open>can_not_place_somewhere\<close> returns false for the T template. It also returns false in
  a reachable state in which every cell is occupied (\<^verbatim>\<open>num_left() == 0\<close>): then no
  cached origin is empty and the quick reject answers. In every reachable state and for
  every brick it returns true exactly when some cached origin of the brick's name is empty
  and no cached orientation passes \<^verbatim>\<open>can_place\<close> there.
\<close>

theorem can_not_place_somewhere_meaning:
  "(CubeGrid_init 6 = Inr s \<longrightarrow> can_not_place_somewhere s brick_T = Inr False)
   \<and> (reachable s \<and> num_left s = Inr 0 \<longrightarrow> can_not_place_somewhere s brick_T = Inr False)
   \<and> (reachable s \<longrightarrow>
        can_not_place_somewhere s b =
          Inr (\<exists>e \<in> set (dict_get_set (valid_placements s) (name b)).
                 cells (grid s) e = 0
                 \<and> \<not> (\<exists>r \<in> set (dict_get_set (valid_rotations s) (name b)).
                          can_place s r e = Inr True)))"
proof (intro conjI impI)
  assume "CubeGrid_init 6 = Inr s"
  then show "can_not_place_somewhere s brick_T = Inr False"
    by (rule fresh_grid_not_blocked[where nm = "''T''"]) (simp add: default_bricks_def)
next
  assume "reachable s \<and> num_left s = Inr 0"
  then show "can_not_place_somewhere s brick_T = Inr False"
    using full_grid_not_blocked[OF reachable_state_ok] by blast
next
  assume "reachable s"
  then show "can_not_place_somewhere s b =
          Inr (\<exists>e \<in> set (dict_get_set (valid_placements s) (name b)).
                 cells (grid s) e = 0
                 \<and> \<not> (\<exists>r \<in> set (dict_get_set (valid_rotations s) (name b)).
                          can_place s r e = Inr True))"
    by (intro can_not_place_somewhere_ok reachable_state_ok)
qed

theorem can_not_place_somewhere_meaning_witness:
  "can_not_place_somewhere fresh6 brick_T = Inr False
   \<and> reachable full6 \<and> num_left full6 = Inr 0
   \<and> can_not_place_somewhere full6 brick_T = Inr False
   \<and> reachable cornered6 \<and> can_not_place_somewhere cornered6 brick_T = Inr True"
proof -
  have "can_not_place_somewhere fresh6 brick_T = Inr False"
    using can_not_place_somewhere_meaning[of fresh6] CubeGrid_init_fresh6 by blast
  moreover have "can_not_place_somewhere full6 brick_T = Inr False"
    using can_not_place_somewhere_meaning[of full6] full6_facts(1) num_left_full6 by blast
  moreover have "can_not_place_somewhere cornered6 brick_T = Inr True"
    using can_not_place_somewhere_meaning[of cornered6 brick_T] cornered6_facts(1)
      cornered6_blocks_T
    by simp
  ultimately show ?thesis using full6_facts(1) num_left_full6 cornered6_facts(1) by blast
qed

text \<open>
  Claim C1 as first stated, that the oracle returns true once the grid is full, fails on
  the grid of size 6 tiled by 54 flat squares.
\<close>

theorem full_grid_counterexample:
  "reachable full6 \<and> num_left full6 = Inr 0
   \<and> can_not_place_somewhere full6 brick_T = Inr False
   \<and> can_not_place_somewhere full6 brick_T \<noteq> Inr True"
  using full6_facts(1) num_left_full6
    full_grid_not_blocked[OF reachable_state_ok[OF full6_facts(1)] num_left_full6, of brick_T]
  by simp

section \<open>The query between existing bricks\<close>

text \<open>
  Claim C3 is about \<^verbatim>\<open>grid.can_place_somewhere(brick, only_adjacent=True,
  min_distinct_adjacent=2)\<close>, which the GUI calls. The class \<^verbatim>\<open>CubeGrid\<close> defines no
  such method: the attribute lookup raises AttributeError before any query runs.
\<close>

theorem can_place_somewhere_is_no_attribute:
  "getattr_CubeGrid ''can_place_somewhere'' = Inl AttributeError"
  by (simp add: getattr_CubeGrid_def CubeGrid_attributes_def)

section \<open>Loading and the caches\<close>

lemma reachable_fresh3: "reachable fresh3"
  using CubeGrid_init_fresh3 by (rule reach_init)

lemma fresh3_fields:
  "size_g fresh3 = 3" "grid fresh3 = \<lparr>shape = 3, cells = (\<lambda>c. 0)\<rparr>"
  "next_id fresh3 = 1" "placed fresh3 = []"
  using CubeGrid_init_result[OF CubeGrid_init_fresh3] by simp_all

lemma load_fresh3_into_fresh6:
  "load_from_file fresh6 (to_dict fresh3) =
     (Inr (), fresh6\<lparr>size_g := 3, grid := grid fresh3, placed := [], next_id := 1\<rparr>)"
proof -
  have "(to_dict fresh3)\<lparr>snap_next_id := Some 1\<rparr> = to_dict fresh3"
    by (simp add: to_dict_def fresh3_fields)
  with load_to_dict[OF reachable_state_ok[OF reachable_fresh3], of fresh6 "Some 1"]
  show ?thesis by (simp add: fresh3_fields)
qed

lemma origin_300_cached: "(3, 0, 0) \<in> set (dict_get_set (valid_placements fresh6) ''T'')"
proof -
  have "can_place fresh6 brick_T (3, 0, 0) = Inr True"
    by (simp add: can_place_ok fresh6_fields cells_of_def brick_T_def in_grid_def)
  with brick_T_in_rots
  have "any_can_place fresh6 (projr (collect_rotations brick_T rotation_triples)) (3, 0, 0) = Inr True"
    by (auto simp: any_can_place_ok fresh6_fields)
  then show ?thesis
    by (simp add: dict_get_set_def fresh6_placements_T in_grid_origins in_grid_def)
qed

lemma origin_300_not_in_fresh3: "(3, 0, 0) \<notin> set (dict_get_set (valid_placements fresh3) ''T'')"
  using cache_origins_in_grid[OF reachable_state_ok[OF reachable_fresh3], of "''T''"]
  by (auto simp: fresh3_fields in_grid_def)

lemma np_get_error: "np_get g c = Inl e \<Longrightarrow> e = IndexError"
  by (auto simp: np_get_def np_coord_def np_index_def split: prod.splits sum.splits if_splits)

lemma collect_empties_raises:
  "c \<in> set cs \<Longrightarrow> np_get g c = Inl e \<Longrightarrow> collect_empties g cs = Inl IndexError"
proof (induction cs)
  case Nil
  then show ?case by simp
next
  case (Cons d cs)
  show ?case
  proof (cases "np_get g d")
    case (Inl e')
    with np_get_error[OF Inl] show ?thesis by simp
  next
    case (Inr v)
    with Cons.prems have "c \<in> set cs" by auto
    from Cons.IH[OF this Cons.prems(2)] Inr show ?thesis by simp
  qed
qed

lemma shrunk3_eq:
  "shrunk3 = fresh6\<lparr>size_g := 3, grid := grid fresh3, placed := [], next_id := 1\<rparr>"
  by (simp add: shrunk3_def load_fresh3_into_fresh6)

lemma shrunk3_collect:
  "collect_empties (grid shrunk3) (dict_get_set (valid_placements shrunk3) (name brick_T))
     = Inl IndexError"
proof -
  have nm: "name brick_T = ''T''" by (simp add: brick_T_def)
  have "np_get (grid fresh3) (3, 0, 0) = Inl IndexError"
    by (simp add: fresh3_fields np_get_def np_coord_def np_index_def)
  from collect_empties_raises[OF origin_300_cached this]
  show ?thesis by (simp add: shrunk3_eq nm)
qed

text \<open>
  Claim C4 says that \<^verbatim>\<open>load_from_file\<close> leaves the caches \<^verbatim>\<open>valid_placements\<close> and
  \<^verbatim>\<open>valid_rotations\<close> alone when the loaded size is the size they were built for, and
  recomputes them when it differs. In the code \<^verbatim>\<open>load_from_file\<close> replaces the size and
  the array and never touches the caches, which only \<^verbatim>\<open>__init__\<close> builds. A grid of size
  6 that loads the document saved from an empty grid of size 3 has size 3 and an array of edge
  3, but keeps the cached origins of size 6, which are not those a grid of size 3 computes;
  \<^verbatim>\<open>validate_placements\<close> and \<^verbatim>\<open>can_not_place_somewhere\<close> then index the array at a
  cached origin outside it and raise IndexError, where a grid constructed with size 3
  answers.
\<close>

theorem load_leaves_caches_of_old_size:
  "load_from_file fresh6 (to_dict fresh3) = (Inr (), shrunk3)
   \<and> size_g fresh6 = 6 \<and> size_g shrunk3 = 3 \<and> grid shrunk3 = grid fresh3
   \<and> valid_placements shrunk3 = valid_placements fresh6
   \<and> valid_rotations shrunk3 = valid_rotations fresh6
   \<and> valid_placements shrunk3 \<noteq> valid_placements fresh3
   \<and> validate_placements shrunk3 brick_T = Inl IndexError
   \<and> can_not_place_somewhere shrunk3 brick_T = Inl IndexError
   \<and> can_not_place_somewhere fresh3 brick_T = Inr False"
proof -
  have 1: "load_from_file fresh6 (to_dict fresh3) = (Inr (), shrunk3)"
    by (simp add: shrunk3_def load_fresh3_into_fresh6)
  have 2: "size_g fresh6 = 6" "size_g shrunk3 = 3" "grid shrunk3 = grid fresh3"
    "valid_placements shrunk3 = valid_placements fresh6"
    "valid_rotations shrunk3 = valid_rotations fresh6"
    by (simp_all add: shrunk3_eq fresh6_fields)
  have "valid_placements fresh6 \<noteq> valid_placements fresh3"
    using origin_300_cached origin_300_not_in_fresh3 by auto
  with 2 have 3: "valid_placements shrunk3 \<noteq> valid_placements fresh3" by simp
  have 4: "validate_placements shrunk3 brick_T = Inl IndexError"
    by (simp add: validate_placements_def shrunk3_collect)
  have 5: "can_not_place_somewhere shrunk3 brick_T = Inl IndexError"
    by (simp add: can_not_place_somewhere_def shrunk3_collect)
  have 6: "can_not_place_somewhere fresh3 brick_T = Inr False"
    by (rule fresh_grid_not_blocked[where nm = "''T''", OF CubeGrid_init_fresh3])
       (simp add: default_bricks_def)
  from 1 2 3 4 5 6 show ?thesis by simp
qed

end
